theory Spec2Isabelle
  imports Complex_Main
begin

section \<open>Byte slices, errors and the searcher structure\<close>

text \<open>
  The program under study is the Go package \<^verbatim>\<open>text\<close> (file \<^verbatim>\<open>go/text/search.go\<close>):
  \<^verbatim>\<open>NewSearcher\<close> reads a file in 4096-byte chunks and \<^verbatim>\<open>Search\<close> scans every chunk and
  every "fencepost" buffer for a word.

  A Go byte slice is a window on a backing array: it has a length and a capacity, and a
  slice expression \<^verbatim>\<open>s[0:k]\<close> may reach beyond the length as long as it stays within the
  capacity. The record below keeps the visible bytes and, separately, the bytes of the backing
  array between length and capacity, since \<^verbatim>\<open>Search\<close> slices chunk buffers by capacity.
  A byte is a \<^typ>\<open>char\<close> (8 bits).
\<close>

record slice =
  bytes :: "char list"
  spare :: "char list"

definition nilSlice :: slice where
  "nilSlice = \<lparr>bytes = [], spare = []\<rparr>"

definition len :: "slice \<Rightarrow> int" where
  "len s = int (length (bytes s))"

definition cap :: "slice \<Rightarrow> int" where
  "cap s = int (length (bytes s) + length (spare s))"

text \<open>
  \<open>IOError\<close> is an error value returned by \<^verbatim>\<open>NewSearcher\<close>; \<open>OutOfBounds\<close> is the error value
  \<^verbatim>\<open>"out of bounds of OS_WORD_SIZE buffer"\<close> returned by \<^verbatim>\<open>isExactWord\<close>; \<open>Panic\<close> is a Go
  run-time panic (index or slice bounds out of range, negative \<^verbatim>\<open>make\<close> length), which ends
  the program.
\<close>

datatype error = IOError | OutOfBounds | Panic

record TextSearcher =
  maxWordSizeInBytes :: int
  fileBuffers :: "slice list"

definition chunkSize :: nat where
  "chunkSize = 4 * 1024"

definition wordCharactersList :: "char list" where
  "wordCharactersList = ''abcdefghijklmnopqrstuvwxyzABCDEFGHIJKLMNOPQRSTUVWXYZ0123456789'-''"

definition punctuationList :: "char list" where
  "punctuationList = [CHR 0x22, CHR ''.'', CHR '','', CHR ''!'', CHR ''?'', CHR ''('', CHR '')'',
     CHR ''{'', CHR ''}'', CHR ''['', CHR '']'']"

section \<open>NewSearcher: reading the file in chunks\<close>

text \<open>
  The file is given by its contents; \<open>None\<close> stands for a file that cannot be opened or
  whose size cannot be read. The reader state is the list of bytes not yet read.
  \<^verbatim>\<open>r.Read(buf)\<close> on a \<^verbatim>\<open>bufio.Reader\<close> over a regular file, with a buffer as large as the
  reader's own, fills \<open>buf\<close> with the next \<open>min (len buf) remaining\<close> bytes, and returns
  \<^verbatim>\<open>io.EOF\<close> when nothing remains. The buffer comes zero-filled from \<^verbatim>\<open>make\<close>, and
  \<^verbatim>\<open>buf = buf[:n]\<close> keeps its capacity, so the unread tail of the buffer stays behind the
  chunk as spare capacity holding zero bytes.
\<close>

definition Read :: "nat \<Rightarrow> char list \<Rightarrow> error + (slice \<times> char list)" where
  "Read n r =
     (if r = [] then Inl IOError
      else Inr (\<lparr>bytes = take n r, spare = replicate (n - length (take n r)) (CHR 0x00)\<rparr>,
                drop n r))"

text \<open>The loop \<^verbatim>\<open>for i := 0; i < numberOfFileChunks; i++\<close>, by the number of rounds left.\<close>

fun readChunks :: "nat \<Rightarrow> char list \<Rightarrow> error + slice list" where
  "readChunks 0 r = Inr []"
| "readChunks (Suc k) r =
     (case Read chunkSize r of
        Inl e \<Rightarrow> Inl e
      | Inr (buf, r') \<Rightarrow>
          (case readChunks k r' of
             Inl e \<Rightarrow> Inl e
           | Inr bufs \<Rightarrow> Inr (buf # bufs)))"

text \<open>
  \<^verbatim>\<open>int(math.Ceil(fileSize / float64(chunkSize)))\<close>: the conversion to \<^verbatim>\<open>float64\<close>, the
  division by 4096 and the rounding are exact on every file size below \<open>2^53\<close>, so the
  value is the ceiling of the quotient of the reals.
\<close>

definition numberOfFileChunks :: "char list \<Rightarrow> nat" where
  "numberOfFileChunks file = nat \<lceil>real (length file) / real chunkSize\<rceil>"

text \<open>Lines 44 to 59 of the source: the chunk sequence \<^verbatim>\<open>fileBuffers\<close>.\<close>

definition fileChunks :: "char list \<Rightarrow> error + slice list" where
  "fileChunks file = readChunks (numberOfFileChunks file) file"

text \<open>
  Lines 61 to 67: \<^verbatim>\<open>make([][]byte, numberOfFileChunks*2 - 1)\<close> panics on a negative length,
  that is on the empty file; the even slots receive the chunks, the odd slots stay nil.
\<close>

definition withFencePosts :: "slice list \<Rightarrow> error + slice list" where
  "withFencePosts chunks =
     (if 2 * int (length chunks) - 1 < 0 then Inl Panic
      else Inr (map (\<lambda>i. if i mod 2 = 0 then chunks ! (i div 2) else nilSlice)
                  [0 ..< 2 * length chunks - 1]))"

definition NewSearcher :: "char list option \<Rightarrow> error + TextSearcher" where
  "NewSearcher f =
     (case f of
        None \<Rightarrow> Inl IOError
      | Some file \<Rightarrow>
          (case fileChunks file of
             Inl e \<Rightarrow> Inl e
           | Inr chunks \<Rightarrow>
               (case withFencePosts chunks of
                  Inl e \<Rightarrow> Inl e
                | Inr bufs \<Rightarrow> Inr \<lparr>maxWordSizeInBytes = 20, fileBuffers = bufs\<rparr>)))"

section \<open>Library functions used by Search\<close>

text \<open>
  Go's \<^verbatim>\<open>int\<close> is 64 bits wide and multiplication wraps around; the other integers of
  the program stay within the length of a buffer, and are unbounded integers here.
\<close>

definition wrap64 :: "int \<Rightarrow> int" where
  "wrap64 x = (x + 2 ^ 63) mod 2 ^ 64 - 2 ^ 63"

text \<open>
  The slice expressions \<^verbatim>\<open>s[lo:]\<close> and \<^verbatim>\<open>s[:hi]\<close>. The low bound is checked against the
  length, the high bound against the capacity; a violated bound panics.
\<close>

definition sliceFrom :: "slice \<Rightarrow> int \<Rightarrow> error + slice" where
  "sliceFrom s lo =
     (if 0 \<le> lo \<and> lo \<le> len s then Inr \<lparr>bytes = drop (nat lo) (bytes s), spare = spare s\<rparr>
      else Inl Panic)"

definition sliceTo :: "slice \<Rightarrow> int \<Rightarrow> error + slice" where
  "sliceTo s hi =
     (if 0 \<le> hi \<and> hi \<le> cap s
      then Inr \<lparr>bytes = take (nat hi) (bytes s @ spare s),
                spare = drop (nat hi) (bytes s @ spare s)\<rparr>
      else Inl Panic)"

text \<open>
  \<^verbatim>\<open>bytes.ToLower\<close> and \<^verbatim>\<open>strings.ToLower\<close> on ASCII data: the letters A to Z move to
  a to z, every other byte stays. (On data that is not ASCII the Go functions map Unicode code
  points; the model covers ASCII files and words.)
\<close>

definition lowerByte :: "char \<Rightarrow> char" where
  "lowerByte c =
     (let n = (of_char c :: nat) in if 65 \<le> n \<and> n \<le> 90 then char_of (n + 32) else c)"

definition ToLower :: "char list \<Rightarrow> char list" where
  "ToLower s = map lowerByte s"

text \<open>
  \<^verbatim>\<open>bytes.Index(s, sep)\<close>: the index of the first occurrence of \<open>sep\<close> in \<open>s\<close>, or \<open>-1\<close>;
  the empty \<open>sep\<close> occurs at index 0.
\<close>

fun Index :: "char list \<Rightarrow> char list \<Rightarrow> int" where
  "Index [] sep = (if sep = [] then 0 else - 1)"
| "Index (c # s) sep =
     (if take (length sep) (c # s) = sep then 0
      else (let k = Index s sep in if k = - 1 then - 1 else k + 1))"

text \<open>\<^verbatim>\<open>bytes.ContainsRune(list, rune(b))\<close> for a byte \<open>b\<close> and an ASCII list.\<close>

definition ContainsRune :: "char list \<Rightarrow> char \<Rightarrow> bool" where
  "ContainsRune l b = (b \<in> set l)"

text \<open>
  \<^verbatim>\<open>bytes.Fields\<close> on ASCII data: the maximal runs of bytes that are not white space
  (tab, line feed, vertical tab, form feed, carriage return, space), in order. The
  first argument of \<open>fieldsFrom\<close> is the field being read, reversed.
\<close>

definition asciiSpace :: "char \<Rightarrow> bool" where
  "asciiSpace c = (c \<in> set [CHR 0x09, CHR 0x0A, CHR 0x0B, CHR 0x0C, CHR 0x0D, CHR '' ''])"

fun fieldsFrom :: "char list \<Rightarrow> char list \<Rightarrow> char list list" where
  "fieldsFrom cur [] = (if cur = [] then [] else [rev cur])"
| "fieldsFrom cur (c # s) =
     (if asciiSpace c then (if cur = [] then fieldsFrom [] s else rev cur # fieldsFrom [] s)
      else fieldsFrom (c # cur) s)"

definition Fields :: "char list \<Rightarrow> char list list" where
  "Fields s = fieldsFrom [] s"

text \<open>
  \<^verbatim>\<open>bytes.ReplaceAll(s, old, new)\<close> for the two calls of \<^verbatim>\<open>removeReturnCharacters\<close>: the
  non-overlapping occurrences of \<^verbatim>\<open>"\r\n"\<close>, from the left, become a space, then every
  \<^verbatim>\<open>"\n"\<close> becomes a space.
\<close>

fun replaceCRLF :: "char list \<Rightarrow> char list" where
  "replaceCRLF (c # d # s) =
     (if c = CHR 0x0D \<and> d = CHR 0x0A then CHR '' '' # replaceCRLF s
      else c # replaceCRLF (d # s))"
| "replaceCRLF s = s"

definition replaceLF :: "char list \<Rightarrow> char list" where
  "replaceLF s = map (\<lambda>c. if c = CHR 0x0A then CHR '' '' else c) s"

definition removeReturnCharacters :: "char list \<Rightarrow> char list" where
  "removeReturnCharacters buf = replaceLF (replaceCRLF buf)"

definition minInt :: "int \<Rightarrow> int \<Rightarrow> int" where
  "minInt x y = (if x < y then x else y)"

text \<open>\<^verbatim>\<open>strings.Join(words, " ")\<close>.\<close>

fun Join :: "char list list \<Rightarrow> char list \<Rightarrow> char list" where
  "Join [] sep = []"
| "Join [w] sep = w"
| "Join (w # ws) sep = w @ sep @ Join ws sep"

section \<open>Context words\<close>

text \<open>
  \<^verbatim>\<open>findContext\<close> takes the last (or first) \<open>numWords\<close> fields of the buffer aside the
  word. When the first of the fields taken is a single punctuation byte, it calls itself on
  the searcher's buffer cut one byte further away from the word and puts the punctuation
  byte at the outer end of the result. The buffer number is never negative and is a natural
  number here.
\<close>

function findContext ::
  "TextSearcher \<Rightarrow> char list \<Rightarrow> bool \<Rightarrow> nat \<Rightarrow> int \<Rightarrow> int \<Rightarrow> error + char list" where
  "findContext ts bufferAsideWord prev bufferNum bufferIndex numWords =
     (let bufferAsSplitBytes = Fields bufferAsideWord;
          numWords' = minInt (int (length bufferAsSplitBytes)) numWords
      in if numWords' < 0 then Inl Panic
         else
          (let wordsInBytes =
                 (if prev then drop (length bufferAsSplitBytes - nat numWords') bufferAsSplitBytes
                  else take (nat numWords') bufferAsSplitBytes)
           in if wordsInBytes = [] then Inr []
              else if length (hd wordsInBytes) = 1 \<and> hd (hd wordsInBytes) \<in> set punctuationList
              then
               (if prev then
                  (if bufferNum < length (fileBuffers ts) \<and> 0 \<le> bufferIndex - 1 \<and>
                      bufferIndex - 1 \<le> cap (fileBuffers ts ! bufferNum)
                   then
                     (case findContext ts
                             (removeReturnCharacters
                                (take (nat (bufferIndex - 1))
                                   (bytes (fileBuffers ts ! bufferNum) @
                                    spare (fileBuffers ts ! bufferNum))))
                             prev bufferNum (bufferIndex - 1) numWords' of
                        Inl e \<Rightarrow> Inl e
                      | Inr s \<Rightarrow> Inr (s @ [hd (hd wordsInBytes)]))
                   else Inl Panic)
                else
                  (if bufferNum < length (fileBuffers ts) \<and> 0 \<le> bufferIndex + 1 \<and>
                      bufferIndex + 1 \<le> len (fileBuffers ts ! bufferNum)
                   then
                     (case findContext ts
                             (removeReturnCharacters
                                (drop (nat (bufferIndex + 1)) (bytes (fileBuffers ts ! bufferNum))))
                             prev bufferNum (bufferIndex + 1) numWords' of
                        Inl e \<Rightarrow> Inl e
                      | Inr s \<Rightarrow> Inr (hd (hd wordsInBytes) # s))
                   else Inl Panic))
              else if prev then Inr (Join wordsInBytes '' '' @ '' '')
              else Inr ('' '' @ Join wordsInBytes '' '')))"
  by pat_completeness auto
termination
  by (relation "measure (\<lambda>(ts, b, prev, n, i, k).
         if prev then nat i else nat (len (fileBuffers ts ! n) - i))") auto

declare findContext.simps [simp del]

definition findPrevWords :: "TextSearcher \<Rightarrow> nat \<Rightarrow> int \<Rightarrow> int \<Rightarrow> error + char list" where
  "findPrevWords ts bufferNum bufferIndex numWords =
     (if bufferNum < length (fileBuffers ts) then
        (case sliceTo (fileBuffers ts ! bufferNum) bufferIndex of
           Inl e \<Rightarrow> Inl e
         | Inr b \<Rightarrow> findContext ts (removeReturnCharacters (bytes b)) True
                      bufferNum bufferIndex numWords)
      else Inl Panic)"

definition findNextWords :: "TextSearcher \<Rightarrow> nat \<Rightarrow> int \<Rightarrow> int \<Rightarrow> error + char list" where
  "findNextWords ts bufferNum bufferIndex numWords =
     (if bufferNum < length (fileBuffers ts) then
        (case sliceFrom (fileBuffers ts ! bufferNum) bufferIndex of
           Inl e \<Rightarrow> Inl e
         | Inr b \<Rightarrow> findContext ts (removeReturnCharacters (bytes b)) False
                      bufferNum bufferIndex numWords)
      else Inl Panic)"

section \<open>Whole-word validation\<close>

text \<open>\<^verbatim>\<open>ts.fileBuffers[bufferNum][i]\<close>: both index expressions panic out of range.\<close>

definition byteAt :: "TextSearcher \<Rightarrow> nat \<Rightarrow> int \<Rightarrow> error + char" where
  "byteAt ts bufferNum i =
     (if bufferNum < length (fileBuffers ts) \<and> 0 \<le> i \<and> i < len (fileBuffers ts ! bufferNum)
      then Inr (bytes (fileBuffers ts ! bufferNum) ! nat i)
      else Inl Panic)"

text \<open>
  \<^verbatim>\<open>isExactWord\<close> returns a boolean and an error; the result here is the boolean, the
  error \<open>OutOfBounds\<close>, or a panic. The second branch of the source compares the buffer number
  with the number of buffers.
\<close>

definition isExactWord :: "TextSearcher \<Rightarrow> nat \<Rightarrow> char list \<Rightarrow> int \<Rightarrow> error + bool" where
  "isExactWord ts bufferNum word index =
     (if bufferNum = 0 \<and> index = 0 then
        (case byteAt ts bufferNum (int (length word)) of
           Inl e \<Rightarrow> Inl e
         | Inr b \<Rightarrow> if ContainsRune wordCharactersList b then Inr False else Inr True)
      else if bufferNum = length (fileBuffers ts) \<and> index + int (length word) = int chunkSize then
        (case byteAt ts bufferNum (int (length word)) of
           Inl e \<Rightarrow> Inl e
         | Inr b \<Rightarrow> if ContainsRune wordCharactersList b then Inr False else Inr True)
      else if index - 1 < 0 \<or> index + 1 > int chunkSize then Inl OutOfBounds
      else
        (case byteAt ts bufferNum (index - 1) of
           Inl e \<Rightarrow> Inl e
         | Inr byteBeforeWord \<Rightarrow>
             (case byteAt ts bufferNum (index + int (length word)) of
                Inl e \<Rightarrow> Inl e
              | Inr byteAfterWord \<Rightarrow>
                  if ContainsRune wordCharactersList byteBeforeWord \<or>
                     ContainsRune wordCharactersList byteAfterWord
                  then Inr False else Inr True)))"

section \<open>Search\<close>

text \<open>
  The first loop of \<^verbatim>\<open>Search\<close> writes a fencepost buffer into every odd slot:
  \<^verbatim>\<open>append(firstHalfPost[len(firstHalfPost)-size:], secondHalfPost[0:size]...)\<close>.
  \<^verbatim>\<open>append\<close> writes into the backing array of its first argument when the capacity
  suffices, which here is the spare capacity of the left neighbour; otherwise it allocates
  a new array. The capacity left over in a new array is never read by the program and is
  empty in the model.
\<close>

definition appendPost :: "slice list \<Rightarrow> nat \<Rightarrow> slice \<Rightarrow> char list \<Rightarrow> slice list" where
  "appendPost bufs i a b =
     (if length b \<le> length (spare a)
      then (bufs[i - 1 := (bufs ! (i - 1))\<lparr>spare := b @ drop (length b) (spare a)\<rparr>])
             [i := \<lparr>bytes = bytes a @ b, spare = drop (length b) (spare a)\<rparr>]
      else bufs[i := \<lparr>bytes = bytes a @ b, spare = []\<rparr>])"

definition putFencePost :: "int \<Rightarrow> slice list \<Rightarrow> nat \<Rightarrow> error + slice list" where
  "putFencePost sizeEitherSideFencepost bufs i =
     (if i + 1 < length bufs then
        (let firstHalfPost = bufs ! (i - 1); secondHalfPost = bufs ! (i + 1)
         in case sliceFrom firstHalfPost (len firstHalfPost - sizeEitherSideFencepost) of
              Inl e \<Rightarrow> Inl e
            | Inr a \<Rightarrow>
                (case sliceTo secondHalfPost sizeEitherSideFencepost of
                   Inl e \<Rightarrow> Inl e
                 | Inr b \<Rightarrow> Inr (appendPost bufs i a (bytes b))))
      else Inl Panic)"

fun putFencePosts :: "int \<Rightarrow> nat list \<Rightarrow> slice list \<Rightarrow> error + slice list" where
  "putFencePosts w [] bufs = Inr bufs"
| "putFencePosts w (i # is) bufs =
     (if i mod 2 \<noteq> 0 then
        (case putFencePost w bufs i of
           Inl e \<Rightarrow> Inl e
         | Inr bufs' \<Rightarrow> putFencePosts w is bufs')
      else putFencePosts w is bufs)"

text \<open>Lines 128 to 140: the context strings and the match, regrabbed from the buffer.\<close>

definition subslice :: "slice \<Rightarrow> int \<Rightarrow> int \<Rightarrow> error + char list" where
  "subslice s lo hi =
     (if 0 \<le> lo \<and> lo \<le> hi \<and> hi \<le> cap s
      then Inr (take (nat (hi - lo)) (drop (nat lo) (bytes s @ spare s)))
      else Inl Panic)"

definition renderMatch :: "TextSearcher \<Rightarrow> nat \<Rightarrow> char list \<Rightarrow> int \<Rightarrow> int \<Rightarrow> error + char list" where
  "renderMatch ts i word context pos =
     (case (if context > 0 then findPrevWords ts i pos context else Inr []) of
        Inl e \<Rightarrow> Inl e
      | Inr prevWords \<Rightarrow>
          (case (if context > 0 then findNextWords ts i (pos + int (length word)) context
                 else Inr []) of
             Inl e \<Rightarrow> Inl e
           | Inr nextWords \<Rightarrow>
               (if i < length (fileBuffers ts) then
                  (case subslice (fileBuffers ts ! i) pos (pos + int (length word)) of
                     Inl e \<Rightarrow> Inl e
                   | Inr w \<Rightarrow> Inr (prevWords @ w @ nextWords))
                else Inl Panic)))"

text \<open>
  The scan loop of one buffer (lines 109 to 148). The loop has no bound of its own, so the
  result is an option: \<open>None\<close> is a loop that never ends. An error of \<^verbatim>\<open>isExactWord\<close> leaves
  the loop with the matches found so far; a panic ends the program.
\<close>

partial_function (option) scanLoop ::
  "TextSearcher \<Rightarrow> nat \<Rightarrow> char list \<Rightarrow> int \<Rightarrow> char list \<Rightarrow> int \<Rightarrow> char list list
   \<Rightarrow> (error + char list list) option" where
  "scanLoop ts i word context buffer skip found =
     (let wordIndex = Index (ToLower buffer) (ToLower word)
      in if wordIndex = - 1 then Some (Inr found)
         else
          (case isExactWord ts i word (wordIndex + skip) of
             Inl Panic \<Rightarrow> Some (Inl Panic)
           | Inl _ \<Rightarrow> Some (Inr found)
           | Inr exactMatch \<Rightarrow>
               if exactMatch = False
               then scanLoop ts i word context
                      (drop (nat (wordIndex + int (length word))) buffer)
                      (skip + (wordIndex + int (length word))) found
               else
                (case renderMatch ts i word context (wordIndex + skip) of
                   Inl e \<Rightarrow> Some (Inl e)
                 | Inr match \<Rightarrow>
                     scanLoop ts i word context
                       (drop (nat (wordIndex + int (length word))) buffer)
                       (skip + (wordIndex + int (length word))) (found @ [match]))))"

declare scanLoop.simps [code]

text \<open>
  One goroutine scans each buffer and writes its own slot of \<^verbatim>\<open>matches\<close>; the goroutines
  share nothing else that is written, so their results are those of the scans taken one by
  one. \<^verbatim>\<open>wg.Wait()\<close> returns when all have ended: a panic in any of them ends the program,
  and otherwise a scan that never ends keeps \<^verbatim>\<open>Search\<close> from returning.
\<close>

definition panicked :: "(error + char list list) option \<Rightarrow> bool" where
  "panicked r = (case r of Some (Inl e) \<Rightarrow> True | _ \<Rightarrow> False)"

definition matchesOf :: "(error + char list list) option \<Rightarrow> char list list" where
  "matchesOf r = (case r of Some (Inr ms) \<Rightarrow> ms | _ \<Rightarrow> [])"

definition joinTasks :: "(error + char list list) option list \<Rightarrow> (error + char list list) option" where
  "joinTasks rs =
     (if list_ex panicked rs then Some (Inl Panic)
      else if list_ex (\<lambda>r. r = None) rs then None
      else Some (Inr (concat (map matchesOf rs))))"

definition Search ::
  "char list \<Rightarrow> int \<Rightarrow> TextSearcher \<Rightarrow> (error + char list list \<times> TextSearcher) option" where
  "Search word context ts =
     (let sizeEitherSideFencepost = wrap64 (context * maxWordSizeInBytes ts)
      in case putFencePosts sizeEitherSideFencepost [0 ..< length (fileBuffers ts)]
                (fileBuffers ts) of
           Inl e \<Rightarrow> Some (Inl e)
         | Inr bufs \<Rightarrow>
             (let ts' = ts\<lparr>fileBuffers := bufs\<rparr>
              in case joinTasks
                        (map (\<lambda>i. scanLoop ts' i word context (bytes (bufs ! i)) 0 [])
                           [0 ..< length bufs]) of
                   None \<Rightarrow> None
                 | Some (Inl e) \<Rightarrow> Some (Inl e)
                 | Some (Inr flatMatches) \<Rightarrow> Some (Inr (flatMatches, ts'))))"

section \<open>Notions used in the statements\<close>

text \<open>
  The fencepost buffer that the first loop of \<^verbatim>\<open>Search\<close> builds from two neighbours when
  the left one has no spare capacity: the last \<open>w\<close> bytes of the left neighbour, then the
  first \<open>w\<close> bytes of the backing array of the right neighbour. \<open>fenceOK\<close> holds when the two
  slice expressions stay within their bounds.
\<close>

definition fenceOf :: "int \<Rightarrow> slice \<Rightarrow> slice \<Rightarrow> slice" where
  "fenceOf w a b =
     \<lparr>bytes = drop (nat (len a - w)) (bytes a) @ take (nat w) (bytes b @ spare b), spare = []\<rparr>"

definition fenceOK :: "int \<Rightarrow> slice \<Rightarrow> slice \<Rightarrow> bool" where
  "fenceOK w a b = (0 \<le> w \<and> w \<le> len a \<and> w \<le> cap b)"

text \<open>
  Every chunk slot that has a right neighbour is filled to its capacity. \<^verbatim>\<open>NewSearcher\<close>
  builds such buffers, since only the last chunk of a file can be short.
\<close>

definition chunksFull :: "slice list \<Rightarrow> bool" where
  "chunksFull bufs =
     list_all (\<lambda>j. even j \<longrightarrow> spare (bufs ! j) = []) [0 ..< length bufs - 2]"

text \<open>The searcher of the one-byte file \<^verbatim>\<open>a\<close>.\<close>

definition tsA :: TextSearcher where
  "tsA = \<lparr>maxWordSizeInBytes = 20,
           fileBuffers = [\<lparr>bytes = ''a'', spare = replicate 4095 (CHR 0x00)\<rparr>]\<rparr>"

text \<open>The searcher of the five-byte file \<^verbatim>\<open>a cat\<close>, which ends with the word.\<close>

definition tsACat :: TextSearcher where
  "tsACat = \<lparr>maxWordSizeInBytes = 20,
              fileBuffers = [\<lparr>bytes = ''a cat'', spare = replicate 4091 (CHR 0x00)\<rparr>]\<rparr>"

text \<open>
  A file of two chunks: 4096 spaces, then \<^verbatim>\<open>cat cat \<close> at the start of the second chunk;
  and its searcher.
\<close>

definition fileB :: "char list" where
  "fileB = replicate 4096 CHR '' '' @ ''cat cat ''"

definition tsB :: TextSearcher where
  "tsB = \<lparr>maxWordSizeInBytes = 20,
           fileBuffers = [\<lparr>bytes = replicate 4096 CHR '' '', spare = []\<rparr>, nilSlice,
                          \<lparr>bytes = ''cat cat '', spare = replicate 4088 (CHR 0x00)\<rparr>]\<rparr>"

text \<open>
  The model of \<^verbatim>\<open>ToLower\<close> is that of ASCII data; \<open>isASCII\<close> says that every byte is below
  128.
\<close>

definition isASCII :: "char list \<Rightarrow> bool" where
  "isASCII s = list_all (\<lambda>c. (of_char c :: nat) < 128) s"


text \<open>
  A file of 4097 bytes, whose second chunk holds one byte; its searcher as built by
  \<^verbatim>\<open>NewSearcher\<close>, and the searcher after a call of \<^verbatim>\<open>Search\<close> with context 1.
\<close>

definition fileC :: "char list" where
  "fileC = replicate 4096 CHR ''x'' @ ''y''"

definition tsC :: TextSearcher where
  "tsC = \<lparr>maxWordSizeInBytes = 20,
           fileBuffers = [\<lparr>bytes = replicate 4096 CHR ''x'', spare = []\<rparr>, nilSlice,
                          \<lparr>bytes = ''y'', spare = replicate 4095 (CHR 0x00)\<rparr>]\<rparr>"

definition tsC1 :: TextSearcher where
  "tsC1 = \<lparr>maxWordSizeInBytes = 20,
           fileBuffers = [\<lparr>bytes = replicate 4096 CHR ''x'', spare = []\<rparr>,
                          \<lparr>bytes = replicate 20 CHR ''x'' @ ''y'' @ replicate 19 (CHR 0x00),
                            spare = []\<rparr>,
                          \<lparr>bytes = ''y'', spare = replicate 4095 (CHR 0x00)\<rparr>]\<rparr>"



text \<open>
  A file of 4116 bytes in which the only \<^verbatim>\<open>cat\<close> stands at file offset 4092, one byte
  before the end of the first chunk; its searcher as built by \<^verbatim>\<open>NewSearcher\<close>, and the
  searcher after a call of \<^verbatim>\<open>Search\<close> with context 1.
\<close>

definition fileD :: "char list" where
  "fileD = replicate 4090 CHR '' '' @ ''a cat '' @ ''b                   ''"

definition tsD :: TextSearcher where
  "tsD = \<lparr>maxWordSizeInBytes = 20,
           fileBuffers = [\<lparr>bytes = replicate 4090 CHR '' '' @ ''a cat '', spare = []\<rparr>, nilSlice,
                          \<lparr>bytes = ''b                   '', spare = replicate 4076 (CHR 0x00)\<rparr>]\<rparr>"

definition tsD1 :: TextSearcher where
  "tsD1 = \<lparr>maxWordSizeInBytes = 20,
           fileBuffers = [\<lparr>bytes = replicate 4090 CHR '' '' @ ''a cat '', spare = []\<rparr>,
                          \<lparr>bytes = replicate 14 CHR '' '' @ ''a cat b                   '',
                            spare = []\<rparr>,
                          \<lparr>bytes = ''b                   '', spare = replicate 4076 (CHR 0x00)\<rparr>]\<rparr>"

section \<open>Properties of the chunk sequence\<close>

lemma readChunks_ok:
  "(k - 1) * chunkSize < length r \<or> k = 0 \<Longrightarrow>
   \<exists>cs. readChunks k r = Inr cs \<and> length cs = k \<and>
        concat (map bytes cs) = take (k * chunkSize) r \<and>
        (\<forall>j < k. bytes (cs ! j) = take chunkSize (drop (j * chunkSize) r)) \<and>
        (\<forall>j < k. length (bytes (cs ! j)) + length (spare (cs ! j)) = chunkSize)"
proof (induction k arbitrary: r)
  case 0
  then show ?case by simp
next
  case (Suc k)
  have cpos: "0 < chunkSize" by (simp add: chunkSize_def)
  from Suc.prems have rne: "r \<noteq> []" by auto
  have "(k - 1) * chunkSize < length (drop chunkSize r) \<or> k = 0"
  proof (cases k)
    case 0
    then show ?thesis by simp
  next
    case (Suc m)
    with Suc.prems have "k * chunkSize < length r" by simp
    moreover have "k * chunkSize = (k - 1) * chunkSize + chunkSize"
      using Suc by simp
    ultimately have "(k - 1) * chunkSize + chunkSize < length r" by simp
    then have "(k - 1) * chunkSize < length r - chunkSize" by linarith
    then show ?thesis by simp
  qed
  from Suc.IH [OF this] obtain cs where cs:
    "readChunks k (drop chunkSize r) = Inr cs" "length cs = k"
    "concat (map bytes cs) = take (k * chunkSize) (drop chunkSize r)"
    "\<forall>j < k. bytes (cs ! j) = take chunkSize (drop (j * chunkSize) (drop chunkSize r))"
    "\<forall>j < k. length (bytes (cs ! j)) + length (spare (cs ! j)) = chunkSize"
    by blast
  let ?b = "\<lparr>bytes = take chunkSize r,
             spare = replicate (chunkSize - length (take chunkSize r)) (CHR 0x00)\<rparr>"
  have run: "readChunks (Suc k) r = Inr (?b # cs)"
    using rne cs(1) by (simp add: Read_def)
  have cat: "concat (map bytes (?b # cs)) = take (Suc k * chunkSize) r"
  proof -
    have "take chunkSize r @ take (k * chunkSize) (drop chunkSize r)
          = take (chunkSize + k * chunkSize) r"
      by (simp add: take_add)
    then show ?thesis using cs(3) by (simp add: add.commute)
  qed
  have nth: "\<forall>j < Suc k. bytes ((?b # cs) ! j) = take chunkSize (drop (j * chunkSize) r)"
  proof (intro allI impI)
    fix j assume "j < Suc k"
    show "bytes ((?b # cs) ! j) = take chunkSize (drop (j * chunkSize) r)"
    proof (cases j)
      case 0
      then show ?thesis by simp
    next
      case (Suc m)
      with \<open>j < Suc k\<close> have "m < k" by simp
      with cs(4) have "bytes (cs ! m) = take chunkSize (drop (m * chunkSize) (drop chunkSize r))"
        by blast
      then show ?thesis using Suc by (simp add: add.commute)
    qed
  qed
  have caps: "\<forall>j < Suc k. length (bytes ((?b # cs) ! j)) + length (spare ((?b # cs) ! j)) = chunkSize"
  proof (intro allI impI)
    fix j assume "j < Suc k"
    show "length (bytes ((?b # cs) ! j)) + length (spare ((?b # cs) ! j)) = chunkSize"
    proof (cases j)
      case 0
      then show ?thesis by simp
    next
      case (Suc m)
      with \<open>j < Suc k\<close> cs(5) show ?thesis by simp
    qed
  qed
  from run cs(2) cat nth caps show ?case by simp
qed

lemma numberOfFileChunks_div:
  "numberOfFileChunks file = (length file + chunkSize - 1) div chunkSize"
proof -
  have "\<lceil>real (length file) / real chunkSize\<rceil> = - (- int (length file) div int chunkSize)"
    using ceiling_divide_eq_div [of "int (length file)" "int chunkSize", where ?'a = real]
    by simp
  also have "\<dots> = (int (length file) + int chunkSize - 1) div int chunkSize"
    by (simp add: chunkSize_def)
  also have "\<dots> = int ((length file + chunkSize - 1) div chunkSize)"
    by (simp add: chunkSize_def zdiv_int)
  finally show ?thesis by (simp add: numberOfFileChunks_def)
qed

lemma numberOfFileChunks_bounds:
  "(numberOfFileChunks file - 1) * chunkSize < length file \<or> numberOfFileChunks file = 0"
  "length file \<le> numberOfFileChunks file * chunkSize"
proof -
  have cpos: "0 < chunkSize" by (simp add: chunkSize_def)
  let ?n = "numberOfFileChunks file"
  have n: "?n = (length file + (chunkSize - 1)) div chunkSize"
    using cpos by (simp add: numberOfFileChunks_div)
  have lo: "?n * chunkSize \<le> length file + (chunkSize - 1)"
    unfolding n by (simp add: div_times_less_eq_dividend)
  have hi: "length file + (chunkSize - 1) < ?n * chunkSize + chunkSize"
    unfolding n using cpos dividend_less_div_times [of chunkSize "length file + (chunkSize - 1)"]
    by (simp add: mult.commute)
  show "length file \<le> ?n * chunkSize" using hi cpos by simp
  show "(?n - 1) * chunkSize < length file \<or> ?n = 0"
  proof (cases "?n")
    case 0
    then show ?thesis by simp
  next
    case (Suc m)
    with lo have "m * chunkSize + chunkSize \<le> length file + (chunkSize - 1)" by simp
    with cpos have "m * chunkSize < length file" by simp
    with Suc show ?thesis by simp
  qed
qed

lemma fileChunks_ok:
  "\<exists>cs. fileChunks file = Inr cs \<and> length cs = numberOfFileChunks file \<and>
        concat (map bytes cs) = file \<and>
        (\<forall>j < length cs. bytes (cs ! j) = take chunkSize (drop (j * chunkSize) file)) \<and>
        (\<forall>j < length cs. length (bytes (cs ! j)) + length (spare (cs ! j)) = chunkSize)"
proof -
  from readChunks_ok [OF numberOfFileChunks_bounds(1) [of "file"]]
  obtain cs where cs: "readChunks (numberOfFileChunks file) file = Inr cs"
    "length cs = numberOfFileChunks file"
    "concat (map bytes cs) = take (numberOfFileChunks file * chunkSize) file"
    "\<forall>j < numberOfFileChunks file. bytes (cs ! j) = take chunkSize (drop (j * chunkSize) file)"
    "\<forall>j < numberOfFileChunks file. length (bytes (cs ! j)) + length (spare (cs ! j)) = chunkSize"
    by blast
  from cs(3) numberOfFileChunks_bounds(2) [of "file"]
  have "concat (map bytes cs) = file" by simp
  with cs show ?thesis by (simp add: fileChunks_def)
qed

lemma withFencePosts_ok:
  "cs \<noteq> [] \<Longrightarrow>
   \<exists>bufs. withFencePosts cs = Inr bufs \<and> length bufs = 2 * length cs - 1 \<and>
     (\<forall>j < length cs. bufs ! (2 * j) = cs ! j) \<and>
     (\<forall>i < length bufs. i mod 2 \<noteq> 0 \<longrightarrow> bufs ! i = nilSlice)"
proof -
  assume ne: "cs \<noteq> []"
  then have pos: "0 < length cs" by simp
  let ?bufs = "map (\<lambda>i. if i mod 2 = 0 then cs ! (i div 2) else nilSlice)
                 [0 ..< 2 * length cs - 1]"
  from pos have "\<not> 2 * int (length cs) - 1 < 0" by linarith
  then have run: "withFencePosts cs = Inr ?bufs"
    unfolding withFencePosts_def by simp
  have evens: "\<forall>j < length cs. ?bufs ! (2 * j) = cs ! j"
  proof (intro allI impI)
    fix j assume "j < length cs"
    then have "2 * j < 2 * length cs - 1" by linarith
    then show "?bufs ! (2 * j) = cs ! j" by simp
  qed
  have odds: "\<forall>i < length ?bufs. i mod 2 \<noteq> 0 \<longrightarrow> ?bufs ! i = nilSlice"
    by simp
  from run evens odds show ?thesis by simp
qed

section \<open>The chunk sequence covers the file\<close>

text \<open>
  Claim C4. For every file that can be opened, the chunk sequence that \<^verbatim>\<open>NewSearcher\<close>
  reads (lines 44 to 59) covers the whole file without gap or overlap: the read loop ends
  without an error, the number of chunks is the ceiling of the file size over 4096, every
  chunk but the last holds exactly 4096 bytes, no chunk is empty or longer than 4096 bytes,
  the lengths add up to the file size and the chunks, in order, are the file. When the file
  is not empty, \<^verbatim>\<open>NewSearcher\<close> returns a searcher that holds chunk \<open>j\<close> in slot \<open>2 * j\<close>.
\<close>

theorem chunks_cover_file:
  "\<exists>cs. fileChunks file = Inr cs \<and>
        int (length cs) = \<lceil>real (length file) / 4096\<rceil> \<and>
        (\<forall>j. j + 1 < length cs \<longrightarrow> length (bytes (cs ! j)) = 4096) \<and>
        (\<forall>j < length cs. 0 < length (bytes (cs ! j)) \<and> length (bytes (cs ! j)) \<le> 4096) \<and>
        sum_list (map (\<lambda>c. length (bytes c)) cs) = length file \<and>
        concat (map bytes cs) = file \<and>
        (file \<noteq> [] \<longrightarrow>
           (\<exists>ts. NewSearcher (Some file) = Inr ts \<and> maxWordSizeInBytes ts = 20 \<and>
                 length (fileBuffers ts) = 2 * length cs - 1 \<and>
                 (\<forall>j < length cs. fileBuffers ts ! (2 * j) = cs ! j)))"
proof -
  from fileChunks_ok [of "file"] obtain cs where cs:
    "fileChunks file = Inr cs" "length cs = numberOfFileChunks file"
    "concat (map bytes cs) = file"
    "\<forall>j < length cs. bytes (cs ! j) = take chunkSize (drop (j * chunkSize) file)"
    by blast
  have c: "chunkSize = 4096" by (simp add: chunkSize_def)
  have n: "int (length cs) = \<lceil>real (length file) / 4096\<rceil>"
  proof -
    have "0 \<le> \<lceil>real (length file) / 4096\<rceil>" by simp
    then show ?thesis using cs(2) by (simp add: numberOfFileChunks_def c)
  qed
  have lo: "(length cs - 1) * chunkSize < length file \<or> length cs = 0"
    using numberOfFileChunks_bounds(1) [of "file"] cs(2) by simp
  have full: "\<forall>j. j + 1 < length cs \<longrightarrow> length (bytes (cs ! j)) = 4096"
  proof (intro allI impI)
    fix j assume j: "j + 1 < length cs"
    then have "j + 1 \<le> length cs - 1" by simp
    then have "(j + 1) * chunkSize \<le> (length cs - 1) * chunkSize"
      by (rule mult_le_mono1)
    moreover from j lo have "(length cs - 1) * chunkSize < length file" by auto
    ultimately have "(j + 1) * chunkSize < length file" by (rule le_less_trans)
    then have "j * chunkSize + chunkSize < length file" by simp
    moreover from j cs(4) have "bytes (cs ! j) = take chunkSize (drop (j * chunkSize) file)"
      by simp
    ultimately show "length (bytes (cs ! j)) = 4096" by (simp add: c)
  qed
  have sizes: "\<forall>j < length cs. 0 < length (bytes (cs ! j)) \<and> length (bytes (cs ! j)) \<le> 4096"
  proof (intro allI impI)
    fix j assume j: "j < length cs"
    then have "j \<le> length cs - 1" by simp
    then have "j * chunkSize \<le> (length cs - 1) * chunkSize"
      by (rule mult_le_mono1)
    moreover from j lo have "(length cs - 1) * chunkSize < length file" by auto
    ultimately have "j * chunkSize < length file" by (rule le_less_trans)
    moreover from j cs(4) have "bytes (cs ! j) = take chunkSize (drop (j * chunkSize) file)"
      by simp
    ultimately show "0 < length (bytes (cs ! j)) \<and> length (bytes (cs ! j)) \<le> 4096"
      by (simp add: c)
  qed
  have total: "sum_list (map (\<lambda>c. length (bytes c)) cs) = length file"
  proof -
    have "length (concat (map bytes cs)) = sum_list (map (\<lambda>c. length (bytes c)) cs)"
      by (simp add: length_concat comp_def)
    with cs(3) show ?thesis by simp
  qed
  have searcher: "file \<noteq> [] \<longrightarrow>
           (\<exists>ts. NewSearcher (Some file) = Inr ts \<and> maxWordSizeInBytes ts = 20 \<and>
                 length (fileBuffers ts) = 2 * length cs - 1 \<and>
                 (\<forall>j < length cs. fileBuffers ts ! (2 * j) = cs ! j))"
  proof
    assume "file \<noteq> []"
    with cs(3) have "cs \<noteq> []" by auto
    from withFencePosts_ok [OF this] obtain bufs where
      "withFencePosts cs = Inr bufs" "length bufs = 2 * length cs - 1"
      "\<forall>j < length cs. bufs ! (2 * j) = cs ! j"
      by blast
    with cs(1) show "\<exists>ts. NewSearcher (Some file) = Inr ts \<and> maxWordSizeInBytes ts = 20 \<and>
                 length (fileBuffers ts) = 2 * length cs - 1 \<and>
                 (\<forall>j < length cs. fileBuffers ts ! (2 * j) = cs ! j)"
      by (simp add: NewSearcher_def)
  qed
  from cs(1) n full sizes total cs(3) searcher show ?thesis by blast
qed

theorem chunks_cover_file_witness:
  "\<exists>cs. fileChunks (replicate 5000 CHR ''x'') = Inr cs \<and> length cs = 2 \<and>
        length (bytes (cs ! 0)) = 4096 \<and> length (bytes (cs ! 1)) = 904 \<and>
        concat (map bytes cs) = replicate 5000 CHR ''x'' \<and>
        (\<exists>ts. NewSearcher (Some (replicate 5000 CHR ''x'')) = Inr ts \<and>
              length (fileBuffers ts) = 3 \<and> fileBuffers ts ! 0 = cs ! 0 \<and>
              fileBuffers ts ! 2 = cs ! 1)"
proof -
  let ?f = "replicate 5000 CHR ''x''"
  from chunks_cover_file [of ?f] obtain cs where cs:
    "fileChunks ?f = Inr cs"
    "int (length cs) = \<lceil>real (length ?f) / 4096\<rceil>"
    "\<forall>j. j + 1 < length cs \<longrightarrow> length (bytes (cs ! j)) = 4096"
    "sum_list (map (\<lambda>c. length (bytes c)) cs) = length ?f"
    "concat (map bytes cs) = ?f"
    "?f \<noteq> [] \<longrightarrow>
       (\<exists>ts. NewSearcher (Some ?f) = Inr ts \<and> maxWordSizeInBytes ts = 20 \<and>
             length (fileBuffers ts) = 2 * length cs - 1 \<and>
             (\<forall>j < length cs. fileBuffers ts ! (2 * j) = cs ! j))"
    by blast
  from cs(2) have n: "length cs = 2" by simp
  then obtain a b where ab: "cs = [a, b]"
    by (metis (no_types, opaque_lifting) One_nat_def Suc_1 length_0_conv length_Suc_conv)
  from cs(3) n have a: "length (bytes (cs ! 0)) = 4096" by simp
  with cs(4) ab have b: "length (bytes (cs ! 1)) = 904" by simp
  have "?f \<noteq> []" by simp
  with cs(6) n obtain ts where ts: "NewSearcher (Some ?f) = Inr ts"
    "length (fileBuffers ts) = 3" "\<forall>j < 2. fileBuffers ts ! (2 * j) = cs ! j"
    by auto
  from ts(3) have "fileBuffers ts ! 0 = cs ! 0" "fileBuffers ts ! 2 = cs ! 1"
    by (auto dest: spec [of _ 0] spec [of _ 1])
  with cs(1) n a b cs(5) ts(1,2) show ?thesis by blast
qed

section \<open>Building the searcher of a small file\<close>

lemma NewSearcher_one:
  assumes "f \<noteq> []" "length f \<le> 4096"
  shows "NewSearcher (Some f) = Inr \<lparr>maxWordSizeInBytes = 20,
           fileBuffers = [\<lparr>bytes = f, spare = replicate (4096 - length f) (CHR 0x00)\<rparr>]\<rparr>"
proof -
  have n: "numberOfFileChunks f = 1"
    using assms by (cases f) (auto simp: numberOfFileChunks_div chunkSize_def)
  have "readChunks (Suc 0) f = Inr [\<lparr>bytes = f, spare = replicate (4096 - length f) (CHR 0x00)\<rparr>]"
    using assms by (simp add: Read_def chunkSize_def)
  with n show ?thesis
    by (simp add: NewSearcher_def fileChunks_def withFencePosts_def)
qed

lemma NewSearcher_two:
  assumes "length a = 4096" "b \<noteq> []" "length b \<le> 4096"
  shows "NewSearcher (Some (a @ b)) = Inr \<lparr>maxWordSizeInBytes = 20,
           fileBuffers = [\<lparr>bytes = a, spare = []\<rparr>, nilSlice,
                          \<lparr>bytes = b, spare = replicate (4096 - length b) (CHR 0x00)\<rparr>]\<rparr>"
proof -
  have "0 < length b" using assms by simp
  then have "(8191 + length b) div 4096 = 2" using assms(3) by linarith
  then have n: "numberOfFileChunks (a @ b) = 2"
    using assms by (simp add: numberOfFileChunks_div chunkSize_def)
  have "readChunks (Suc (Suc 0)) (a @ b) =
          Inr [\<lparr>bytes = a, spare = []\<rparr>,
               \<lparr>bytes = b, spare = replicate (4096 - length b) (CHR 0x00)\<rparr>]"
    using assms by (simp add: Read_def chunkSize_def)
  moreover have "[0..<3] = [0, Suc 0, 2]" by (simp add: upt_rec)
  ultimately show ?thesis using n
    by (simp add: NewSearcher_def fileChunks_def withFencePosts_def numeral_2_eq_2)
qed

section \<open>Facts about Index and the scan loop\<close>

lemma Index_found:
  "Index s sep \<noteq> - 1 \<Longrightarrow>
     0 \<le> Index s sep \<and> nat (Index s sep) + length sep \<le> length s \<and>
     take (length sep) (drop (nat (Index s sep)) s) = sep"
proof (induction s)
  case Nil
  then show ?case by (simp split: if_splits)
next
  case (Cons c s)
  show ?case
  proof (cases "take (length sep) (c # s) = sep")
    case True
    then have "length (take (length sep) (c # s)) = length sep" by simp
    then have "length sep \<le> length (c # s)"
      unfolding length_take by linarith
    with True show ?thesis by simp
  next
    case False
    with Cons.prems have k: "Index s sep \<noteq> - 1"
      by (auto simp: Let_def split: if_splits)
    from Cons.IH [OF k] have ih: "0 \<le> Index s sep"
      "nat (Index s sep) + length sep \<le> length s"
      "take (length sep) (drop (nat (Index s sep)) s) = sep" by simp_all
    from False k have eq: "Index (c # s) sep = Index s sep + 1" by (simp add: Let_def)
    from ih(1) have "nat (Index s sep + 1) = Suc (nat (Index s sep))" by simp
    with eq ih show ?thesis by simp
  qed
qed

lemma length_ToLower [simp]: "length (ToLower s) = length s"
  by (simp add: ToLower_def)

lemma scanLoop_terminates:
  assumes ne: "word \<noteq> []"
  shows "\<exists>y. scanLoop ts i word c buffer skip found = Some y"
proof (induction "length buffer" arbitrary: buffer skip found rule: less_induct)
  case less
  let ?wi = "Index (ToLower buffer) (ToLower word)"
  show ?case
  proof (cases "?wi = - 1")
    case True
    then show ?thesis by (subst scanLoop.simps) simp
  next
    case False
    from Index_found [OF False] have b: "0 \<le> ?wi" "nat ?wi + length word \<le> length buffer"
      by simp_all
    from ne have "0 < length word" by simp
    with b have "length buffer - (nat ?wi + length word) < length buffer" by linarith
    with b have "length (drop (nat (?wi + int (length word))) buffer) < length buffer"
      by (simp add: nat_add_distrib)
    from less [OF this] have rec:
      "\<And>skip found. \<exists>y. scanLoop ts i word c (drop (nat (?wi + int (length word))) buffer)
                            skip found = Some y"
      by blast
    show ?thesis
      by (subst scanLoop.simps)
         (simp add: Let_def False rec split: sum.split error.split)
  qed
qed



lemma exact_tsA: "isExactWord tsA 0 [] 0 = Inr False"
  by (simp add: tsA_def isExactWord_def byteAt_def len_def ContainsRune_def wordCharactersList_def)

lemma scan_empty_word:
  assumes run: "scanLoop ts i word c buffer skip found = Some y"
  shows "\<not> (ts = tsA \<and> i = 0 \<and> word = [] \<and> buffer = ''a'' \<and> skip = 0)"
proof (rule scanLoop.raw_induct
    [where P = "\<lambda>ts i word c buffer skip found y.
                  \<not> (ts = tsA \<and> i = 0 \<and> word = [] \<and> buffer = ''a'' \<and> skip = 0)", OF _ run])
  fix f ts i word c buffer skip found y
  assume IH: "\<And>ts i word c buffer skip found y. f ts i word c buffer skip found = Some y \<Longrightarrow>
                \<not> (ts = tsA \<and> i = 0 \<and> word = [] \<and> buffer = ''a'' \<and> skip = 0)"
    and body: "(let wordIndex = Index (ToLower buffer) (ToLower word)
      in if wordIndex = - 1 then Some (Inr found)
         else
          (case isExactWord ts i word (wordIndex + skip) of
             Inl Panic \<Rightarrow> Some (Inl Panic)
           | Inl _ \<Rightarrow> Some (Inr found)
           | Inr exactMatch \<Rightarrow>
               if exactMatch = False
               then f ts i word c
                      (drop (nat (wordIndex + int (length word))) buffer)
                      (skip + (wordIndex + int (length word))) found
               else
                (case renderMatch ts i word c (wordIndex + skip) of
                   Inl e \<Rightarrow> Some (Inl e)
                 | Inr match \<Rightarrow>
                     f ts i word c
                       (drop (nat (wordIndex + int (length word))) buffer)
                       (skip + (wordIndex + int (length word))) (found @ [match])))) = Some y"
  show "\<not> (ts = tsA \<and> i = 0 \<and> word = [] \<and> buffer = ''a'' \<and> skip = 0)"
  proof
    assume bad: "ts = tsA \<and> i = 0 \<and> word = [] \<and> buffer = ''a'' \<and> skip = 0"
    with body have "f tsA 0 [] c ''a'' 0 found = Some y"
      by (simp add: ToLower_def exact_tsA)
    from IH [OF this] show False by simp
  qed
qed


section \<open>The fencepost loop in closed form\<close>

lemma chunksFull_iff:
  "chunksFull bufs = (\<forall>j. even j \<and> j + 2 < length bufs \<longrightarrow> spare (bufs ! j) = [])"
proof -
  have "(j \<in> set [0 ..< length bufs - 2]) = (j + 2 < length bufs)" for j
    by (simp add: less_diff_conv)
  then show ?thesis unfolding chunksFull_def list_all_iff by blast
qed

lemma spare_update_same: "spare r = [] \<Longrightarrow> r\<lparr>spare := []\<rparr> = r"
  by (cases r) simp

lemma appendPost_full:
  assumes "spare a = []" "spare (bufs ! (i - 1)) = []"
  shows "appendPost bufs i a b = bufs[i := \<lparr>bytes = bytes a @ b, spare = []\<rparr>]"
proof (cases "b = []")
  case True
  have "bufs[i - 1 := (bufs ! (i - 1))\<lparr>spare := []\<rparr>] = bufs"
    using assms(2) by (simp add: spare_update_same)
  with True assms(1) show ?thesis by (simp add: appendPost_def)
next
  case False
  with assms(1) show ?thesis by (simp add: appendPost_def)
qed

lemma putFencePost_full:
  assumes "spare (bufs ! (i - 1)) = []" "i + 1 < length bufs"
  shows "putFencePost w bufs i =
           (if fenceOK w (bufs ! (i - 1)) (bufs ! (i + 1))
            then Inr (bufs[i := fenceOf w (bufs ! (i - 1)) (bufs ! (i + 1))])
            else Inl Panic)"
proof (cases "fenceOK w (bufs ! (i - 1)) (bufs ! (i + 1))")
  case False
  with assms(2) show ?thesis
    by (auto simp: putFencePost_def fenceOK_def sliceFrom_def sliceTo_def Let_def)
next
  case True
  let ?a = "bufs ! (i - 1)" and ?b = "bufs ! (i + 1)"
  from True have ok: "0 \<le> w" "w \<le> len ?a" "w \<le> cap ?b" by (simp_all add: fenceOK_def)
  have "appendPost bufs i \<lparr>bytes = drop (nat (len ?a - w)) (bytes ?a), spare = spare ?a\<rparr>
          (take (nat w) (bytes ?b @ spare ?b))
        = bufs[i := fenceOf w ?a ?b]"
    using assms(1) by (simp add: appendPost_full fenceOf_def)
  with ok assms(2) True show ?thesis
    by (simp add: putFencePost_def sliceFrom_def sliceTo_def Let_def)
qed

lemma putFencePosts_closed:
  "chunksFull bufs \<Longrightarrow> length bufs = n \<Longrightarrow> k \<le> n \<Longrightarrow>
   putFencePosts w [k ..< n] bufs =
     (if \<forall>i. k \<le> i \<and> i < n \<and> odd i \<longrightarrow>
            i + 1 < n \<and> fenceOK w (bufs ! (i - 1)) (bufs ! (i + 1))
      then Inr (map (\<lambda>i. if k \<le> i \<and> odd i then fenceOf w (bufs ! (i - 1)) (bufs ! (i + 1))
                         else bufs ! i) [0 ..< n])
      else Inl Panic)"
proof (induction "n - k" arbitrary: k bufs)
  case 0
  then have "k = n" by simp
  with 0 show ?case by (auto simp: map_nth intro!: nth_equalityI)
next
  case (Suc d)
  then have kn: "k < n" and d: "d = n - Suc k" by simp_all
  have upt: "[k ..< n] = k # [Suc k ..< n]" using kn by (simp add: upt_conv_Cons)
  show ?case
  proof (cases "odd k")
    case False
    have cond: "(\<forall>i. k \<le> i \<and> i < n \<and> odd i \<longrightarrow>
                   i + 1 < n \<and> fenceOK w (bufs ! (i - 1)) (bufs ! (i + 1))) =
                (\<forall>i. Suc k \<le> i \<and> i < n \<and> odd i \<longrightarrow>
                   i + 1 < n \<and> fenceOK w (bufs ! (i - 1)) (bufs ! (i + 1)))"
      using False by (metis Suc_leD Suc_leI le_neq_implies_less)
    have maps: "map (\<lambda>i. if k \<le> i \<and> odd i then fenceOf w (bufs ! (i - 1)) (bufs ! (i + 1))
                         else bufs ! i) [0 ..< n] =
                map (\<lambda>i. if Suc k \<le> i \<and> odd i then fenceOf w (bufs ! (i - 1)) (bufs ! (i + 1))
                         else bufs ! i) [0 ..< n]"
      using False by (auto intro!: map_cong simp: Suc_le_eq le_less)
    from Suc.hyps(1) [OF d Suc.prems(1,2)] kn False show ?thesis
      unfolding upt cond maps by (simp add: odd_iff_mod_2_eq_one)
  next
    case True
    show ?thesis
    proof (cases "k + 1 < n")
      case False
      with True kn have "putFencePost w bufs k = Inl Panic"
        using Suc.prems(2) by (simp add: putFencePost_def)
      moreover from False kn True have "\<not> (\<forall>i. k \<le> i \<and> i < n \<and> odd i \<longrightarrow>
            i + 1 < n \<and> fenceOK w (bufs ! (i - 1)) (bufs ! (i + 1)))" by blast
      ultimately show ?thesis using True unfolding upt
        by (simp add: odd_iff_mod_2_eq_one)
    next
      case k1: True
      from True have ek: "even (k - 1)" and kpos: "0 < k" by (auto elim: oddE)
      with k1 Suc.prems(1,2) have sp: "spare (bufs ! (k - 1)) = []"
        by (simp add: chunksFull_iff)
      let ?F = "fenceOf w (bufs ! (k - 1)) (bufs ! (k + 1))"
      let ?bufs' = "bufs[k := ?F]"
      have step: "putFencePost w bufs k =
                   (if fenceOK w (bufs ! (k - 1)) (bufs ! (k + 1)) then Inr ?bufs' else Inl Panic)"
        using putFencePost_full [OF sp] k1 Suc.prems(2) by simp
      show ?thesis
      proof (cases "fenceOK w (bufs ! (k - 1)) (bufs ! (k + 1))")
        case False
        with kn True have "\<not> (\<forall>i. k \<le> i \<and> i < n \<and> odd i \<longrightarrow>
            i + 1 < n \<and> fenceOK w (bufs ! (i - 1)) (bufs ! (i + 1)))" by blast
        with step False True show ?thesis unfolding upt
          by (simp add: odd_iff_mod_2_eq_one)
      next
        case ok: True
        have full': "chunksFull ?bufs'"
          unfolding chunksFull_iff
        proof (intro allI impI)
          fix j assume j: "even j \<and> j + 2 < length ?bufs'"
          with True have "j \<noteq> k" by auto
          with j Suc.prems(1) show "spare (?bufs' ! j) = []"
            by (simp add: chunksFull_iff)
        qed
        have len': "length ?bufs' = n" using Suc.prems(2) by simp
        have nb: "?bufs' ! (i - 1) = bufs ! (i - 1) \<and> ?bufs' ! (i + 1) = bufs ! (i + 1)"
          if "odd i" for i
        proof -
          from that have "even (i - 1)" "even (i + 1)" by simp_all
          with True have "i - 1 \<noteq> k" "i + 1 \<noteq> k" by blast+
          then show ?thesis by simp
        qed
        have cond: "(\<forall>i. Suc k \<le> i \<and> i < n \<and> odd i \<longrightarrow>
                       i + 1 < n \<and> fenceOK w (?bufs' ! (i - 1)) (?bufs' ! (i + 1))) =
                    (\<forall>i. k \<le> i \<and> i < n \<and> odd i \<longrightarrow>
                       i + 1 < n \<and> fenceOK w (bufs ! (i - 1)) (bufs ! (i + 1)))"
          (is "?L = ?R")
        proof
          assume L: ?L
          show ?R
          proof (intro allI impI)
            fix i assume i: "k \<le> i \<and> i < n \<and> odd i"
            show "i + 1 < n \<and> fenceOK w (bufs ! (i - 1)) (bufs ! (i + 1))"
            proof (cases "i = k")
              case True
              with k1 ok show ?thesis by simp
            next
              case False
              with i have "Suc k \<le> i \<and> i < n \<and> odd i" by simp
              with L nb [of i] show ?thesis by auto
            qed
          qed
        next
          assume R: ?R
          show ?L
          proof (intro allI impI)
            fix i assume i: "Suc k \<le> i \<and> i < n \<and> odd i"
            then have "k \<le> i \<and> i < n \<and> odd i" by simp
            with R nb [of i] show "i + 1 < n \<and> fenceOK w (?bufs' ! (i - 1)) (?bufs' ! (i + 1))"
              by auto
          qed
        qed
        have maps: "map (\<lambda>i. if Suc k \<le> i \<and> odd i
                              then fenceOf w (?bufs' ! (i - 1)) (?bufs' ! (i + 1))
                              else ?bufs' ! i) [0 ..< n] =
                    map (\<lambda>i. if k \<le> i \<and> odd i
                              then fenceOf w (bufs ! (i - 1)) (bufs ! (i + 1))
                              else bufs ! i) [0 ..< n]"
        proof (rule map_cong [OF refl])
          fix i assume "i \<in> set [0 ..< n]"
          then have i: "i < n" by simp
          show "(if Suc k \<le> i \<and> odd i then fenceOf w (?bufs' ! (i - 1)) (?bufs' ! (i + 1))
                 else ?bufs' ! i) =
                (if k \<le> i \<and> odd i then fenceOf w (bufs ! (i - 1)) (bufs ! (i + 1))
                 else bufs ! i)"
          proof (cases "i = k")
            case True
            with kn True \<open>odd k\<close> Suc.prems(2) show ?thesis by simp
          next
            case False
            with nb [of i] show ?thesis by (auto simp: nth_list_update)
          qed
        qed
        from Suc.hyps(1) [OF d full' len'] kn
        have "putFencePosts w [Suc k ..< n] ?bufs' =
                (if ?R then Inr (map (\<lambda>i. if k \<le> i \<and> odd i
                              then fenceOf w (bufs ! (i - 1)) (bufs ! (i + 1))
                              else bufs ! i) [0 ..< n]) else Inl Panic)"
          unfolding cond maps by simp
        with step ok True show ?thesis unfolding upt
          by (simp add: odd_iff_mod_2_eq_one)
      qed
    qed
  qed
qed

section \<open>The empty search word\<close>

text \<open>
  Claim C9 says that the scan loop of a buffer ends for every search term. On the empty
  term it does not: \<^verbatim>\<open>bytes.Index\<close> finds the empty term at index 0 and the cursor moves by
  the length of the term, which is 0. On the file \<^verbatim>\<open>a\<close> the scan of the first buffer never
  ends, and neither does \<^verbatim>\<open>Search\<close>. (For a term that is not empty the loop ends:
  lemma \<open>scanLoop_terminates\<close>.)
\<close>

theorem scan_never_ends_on_empty_word:
  "NewSearcher (Some ''a'') = Inr tsA \<and>
   scanLoop tsA 0 [] 0 (bytes (fileBuffers tsA ! 0)) 0 [] = None \<and>
   Search [] 0 tsA = None"
proof -
  have ts: "NewSearcher (Some ''a'') = Inr tsA"
    by (simp add: NewSearcher_one tsA_def)
  have scan: "scanLoop tsA 0 [] 0 ''a'' 0 [] = None"
    using scan_empty_word [of tsA 0 "[]" 0 "''a''" 0 "[]"]
    by (cases "scanLoop tsA 0 [] 0 ''a'' 0 []") auto
  then have "Search [] 0 tsA = None"
    by (simp add: Search_def tsA_def wrap64_def joinTasks_def panicked_def)
  with ts scan show ?thesis by (simp add: tsA_def)
qed

section \<open>Whole-word validation at the edges\<close>

lemma lower_cat: "ToLower ''cat'' = ''cat''"
  by code_simp

text \<open>
  Claim C6 says that a candidate that ends at the last byte of the file is checked on its
  left neighbour only. The branch of \<^verbatim>\<open>isExactWord\<close> written for this case is never taken
  (it compares the buffer number with the number of buffers), so the general branch reads the
  byte behind the end of the buffer: on the file \<^verbatim>\<open>a cat\<close> the validation of the
  candidate at index 2 panics, and so does \<^verbatim>\<open>Search\<close>.
\<close>

theorem last_word_of_file_panics:
  "NewSearcher (Some ''a cat'') = Inr tsACat \<and>
   Index (ToLower ''a cat'') (ToLower ''cat'') = 2 \<and>
   isExactWord tsACat 0 ''cat'' 2 = Inl Panic \<and>
   Search ''cat'' 0 tsACat = Some (Inl Panic)"
proof -
  have ts: "NewSearcher (Some ''a cat'') = Inr tsACat"
    by (simp add: NewSearcher_one tsACat_def)
  have low: "ToLower ''a cat'' = ''a cat''" by code_simp
  have idx: "Index (ToLower ''a cat'') (ToLower ''cat'') = 2"
    by (simp add: low lower_cat)
  have exact: "isExactWord tsACat 0 ''cat'' 2 = Inl Panic"
    by (simp add: tsACat_def isExactWord_def byteAt_def len_def chunkSize_def)
  have "scanLoop tsACat 0 ''cat'' 0 ''a cat'' 0 [] = Some (Inl Panic)"
    by (subst scanLoop.simps) (simp add: idx exact)
  then have "Search ''cat'' 0 tsACat = Some (Inl Panic)"
    by (simp add: Search_def tsACat_def wrap64_def joinTasks_def panicked_def)
  with ts idx exact show ?thesis by simp
qed

text \<open>
  Claim C5, as amended. For a candidate at a local index from 1 to 4095 of its buffer that is
  followed by at least one byte of the same buffer, \<^verbatim>\<open>isExactWord\<close> reads the byte before
  and the byte after the candidate in that buffer and rejects the candidate exactly when one of
  the two is a word character. A candidate at local index 0 of a buffer other than the first is
  not examined: the result is the error \<open>OutOfBounds\<close>.
\<close>

theorem exact_word_inside_buffer:
  "(bufferNum < length (fileBuffers ts) \<and> 1 \<le> index \<and> index < int chunkSize \<and>
      index + int (length word) < len (fileBuffers ts ! bufferNum) \<longrightarrow>
    isExactWord ts bufferNum word index =
      Inr (\<not> (ContainsRune wordCharactersList
                   (bytes (fileBuffers ts ! bufferNum) ! nat (index - 1)) \<or>
               ContainsRune wordCharactersList
                   (bytes (fileBuffers ts ! bufferNum) ! nat (index + int (length word)))))) \<and>
   (0 < bufferNum \<and> bufferNum < length (fileBuffers ts) \<longrightarrow>
    isExactWord ts bufferNum word 0 = Inl OutOfBounds)"
  by (auto simp: isExactWord_def byteAt_def len_def)

theorem exact_word_inside_buffer_witness:
  "isExactWord tsB 2 ''cat'' 4 = Inr True \<and> isExactWord tsB 2 ''ca'' 4 = Inr False \<and>
   isExactWord tsB 2 ''cat'' 0 = Inl OutOfBounds"
proof -
  have c: "chunkSize = 4096" by (simp add: chunkSize_def)
  have b: "fileBuffers tsB ! 2 = \<lparr>bytes = ''cat cat '', spare = replicate 4088 (CHR 0x00)\<rparr>"
    "length (fileBuffers tsB) = 3"
    by (simp_all add: tsB_def)
  have w: "\<not> ContainsRune wordCharactersList CHR '' ''" "ContainsRune wordCharactersList CHR ''t''"
    by (simp_all add: ContainsRune_def wordCharactersList_def)
  from exact_word_inside_buffer [of 2 tsB 4 "''cat''"]
  have "isExactWord tsB 2 ''cat'' 4 = Inr True" by (simp add: b c len_def w)
  moreover from exact_word_inside_buffer [of 2 tsB 4 "''ca''"]
  have "isExactWord tsB 2 ''ca'' 4 = Inr False" by (simp add: b c len_def w)
  moreover from exact_word_inside_buffer [of 2 tsB 0 "''cat''"]
  have "isExactWord tsB 2 ''cat'' 0 = Inl OutOfBounds" by (simp add: b)
  ultimately show ?thesis by simp
qed

text \<open>
  Claim C5 as stated fails: in the file \<open>fileB\<close> the word \<^verbatim>\<open>cat\<close> at file offset 4096 neither
  starts the file nor ends it, and the bytes before and after it are spaces, yet its validation
  in the second chunk, where it lies at local index 0, examines no byte and returns the error.
\<close>

theorem exact_word_at_chunk_start_counterexample:
  "NewSearcher (Some fileB) = Inr tsB \<and>
   bytes (fileBuffers tsB ! 2) = drop 4096 fileB \<and>
   take 3 (drop 4096 fileB) = ''cat'' \<and> 4096 + 3 < length fileB \<and>
   \<not> ContainsRune wordCharactersList (fileB ! 4095) \<and>
   \<not> ContainsRune wordCharactersList (fileB ! 4099) \<and>
   isExactWord tsB 2 ''cat'' 0 = Inl OutOfBounds"
proof -
  have ts: "NewSearcher (Some fileB) = Inr tsB"
    unfolding fileB_def tsB_def by (subst NewSearcher_two) simp_all
  have e: "isExactWord tsB 2 ''cat'' 0 = Inl OutOfBounds"
    by (simp add: tsB_def isExactWord_def)
  have n: "fileB ! 4095 = CHR '' ''" "fileB ! 4099 = CHR '' ''"
    by (simp_all add: fileB_def nth_append)
  have w: "\<not> ContainsRune wordCharactersList CHR '' ''"
    by (simp add: ContainsRune_def wordCharactersList_def)
  from ts e n w show ?thesis by (simp add: fileB_def tsB_def)
qed

section \<open>The searcher built by NewSearcher and the state after Search\<close>

lemma NewSearcher_shape:
  assumes "NewSearcher (Some file) = Inr ts"
  shows "maxWordSizeInBytes ts = 20"
    and "0 < numberOfFileChunks file"
    and "length (fileBuffers ts) = 2 * numberOfFileChunks file - 1"
    and "chunksFull (fileBuffers ts)"
    and "\<forall>j < numberOfFileChunks file.
           bytes (fileBuffers ts ! (2 * j)) = take chunkSize (drop (j * chunkSize) file)"
    and "\<forall>i < length (fileBuffers ts). odd i \<longrightarrow> fileBuffers ts ! i = nilSlice"
proof -
  let ?n = "numberOfFileChunks file"
  from fileChunks_ok [of "file"] obtain cs where cs:
    "fileChunks file = Inr cs" "length cs = ?n"
    "\<forall>j < length cs. bytes (cs ! j) = take chunkSize (drop (j * chunkSize) file)"
    "\<forall>j < length cs. length (bytes (cs ! j)) + length (spare (cs ! j)) = chunkSize"
    by blast
  from assms cs(1) obtain bufs where bufs: "withFencePosts cs = Inr bufs"
    and ts: "ts = \<lparr>maxWordSizeInBytes = 20, fileBuffers = bufs\<rparr>"
    by (auto simp: NewSearcher_def split: sum.splits)
  from bufs have ne: "cs \<noteq> []"
    by (auto simp: withFencePosts_def split: if_splits)
  from withFencePosts_ok [OF ne] bufs have shape:
    "length bufs = 2 * length cs - 1"
    "\<forall>j < length cs. bufs ! (2 * j) = cs ! j"
    "\<forall>i < length bufs. i mod 2 \<noteq> 0 \<longrightarrow> bufs ! i = nilSlice"
    by auto
  show "maxWordSizeInBytes ts = 20" using ts by simp
  from ne have "0 < length cs" by simp
  with cs(2) show pos: "0 < ?n" by simp
  show "length (fileBuffers ts) = 2 * ?n - 1" using ts shape(1) cs(2) by simp
  show "\<forall>j < ?n. bytes (fileBuffers ts ! (2 * j)) = take chunkSize (drop (j * chunkSize) file)"
    using ts shape(2) cs(2,3) by simp
  show "\<forall>i < length (fileBuffers ts). odd i \<longrightarrow> fileBuffers ts ! i = nilSlice"
    using ts shape(3) by (simp add: odd_iff_mod_2_eq_one)
  show "chunksFull (fileBuffers ts)"
    unfolding chunksFull_iff
  proof (intro allI impI)
    fix i assume i: "even i \<and> i + 2 < length (fileBuffers ts)"
    then obtain j where j: "i = 2 * j" by (auto elim: evenE)
    from i ts shape(1) cs(2) j have jn: "j + 1 < ?n" by simp
    then have "j + 1 \<le> ?n - 1" by simp
    then have "(j + 1) * chunkSize \<le> (?n - 1) * chunkSize" by (rule mult_le_mono1)
    moreover from numberOfFileChunks_bounds(1) [of "file"] pos
    have "(?n - 1) * chunkSize < length file" by simp
    ultimately have "(j + 1) * chunkSize < length file" by (rule le_less_trans)
    then have "chunkSize \<le> length file - j * chunkSize" by simp
    moreover from jn cs(2,3) have "bytes (cs ! j) = take chunkSize (drop (j * chunkSize) file)"
      by simp
    ultimately have "length (bytes (cs ! j)) = chunkSize" by simp
    moreover from jn cs(2,4) have "length (bytes (cs ! j)) + length (spare (cs ! j)) = chunkSize"
      by simp
    ultimately have "spare (cs ! j) = []" by simp
    moreover from jn cs(2) shape(2) have "bufs ! (2 * j) = cs ! j" by simp
    ultimately show "spare (fileBuffers ts ! i) = []" using ts j by simp
  qed
qed

lemma fence_loop_even_slots:
  assumes "length A = n" "length B = n" "chunksFull A" "chunksFull B"
    and same: "\<forall>i < n. even i \<longrightarrow> A ! i = B ! i"
  shows "putFencePosts w [0 ..< n] A = putFencePosts w [0 ..< n] B"
proof -
  have nb: "A ! (i - 1) = B ! (i - 1) \<and> A ! (i + 1) = B ! (i + 1)" if "odd i" "i + 1 < n" for i
  proof -
    from that have "even (i - 1)" "even (i + 1)" "i - 1 < n" by simp_all
    with same that(2) show ?thesis by simp
  qed
  let ?CA = "\<forall>i. 0 \<le> i \<and> i < n \<and> odd i \<longrightarrow> i + 1 < n \<and> fenceOK w (A ! (i - 1)) (A ! (i + 1))"
  let ?CB = "\<forall>i. 0 \<le> i \<and> i < n \<and> odd i \<longrightarrow> i + 1 < n \<and> fenceOK w (B ! (i - 1)) (B ! (i + 1))"
  let ?MA = "map (\<lambda>i. if 0 \<le> i \<and> odd i then fenceOf w (A ! (i - 1)) (A ! (i + 1)) else A ! i) [0 ..< n]"
  let ?MB = "map (\<lambda>i. if 0 \<le> i \<and> odd i then fenceOf w (B ! (i - 1)) (B ! (i + 1)) else B ! i) [0 ..< n]"
  have cond: "?CA = ?CB"
    using nb by metis
  have A: "putFencePosts w [0 ..< n] A = (if ?CA then Inr ?MA else Inl Panic)"
    using putFencePosts_closed [OF assms(3) assms(1), of 0 w] by simp
  have B: "putFencePosts w [0 ..< n] B = (if ?CB then Inr ?MB else Inl Panic)"
    using putFencePosts_closed [OF assms(4) assms(2), of 0 w] by simp
  show ?thesis
  proof (cases ?CA)
    case False
    then have "putFencePosts w [0 ..< n] A = Inl Panic" unfolding A by (rule if_not_P)
    moreover from False cond have "\<not> ?CB" by blast
    then have "putFencePosts w [0 ..< n] B = Inl Panic" unfolding B by (rule if_not_P)
    ultimately show ?thesis by (simp only:)
  next
    case True
    have maps: "?MA = ?MB"
    proof (rule map_cong [OF refl])
      fix i assume "i \<in> set [0 ..< n]"
      then have i: "i < n" by simp
      show "(if 0 \<le> i \<and> odd i then fenceOf w (A ! (i - 1)) (A ! (i + 1)) else A ! i) =
            (if 0 \<le> i \<and> odd i then fenceOf w (B ! (i - 1)) (B ! (i + 1)) else B ! i)"
      proof (cases "odd i")
        case odd: True
        with True i have "i + 1 < n" by simp
        from nb [OF odd this] odd show ?thesis by simp
      next
        case False
        with same i show ?thesis by simp
      qed
    qed
    from True have "putFencePosts w [0 ..< n] A = Inr ?MA" unfolding A by (rule if_P)
    moreover from True cond have ?CB by blast
    then have "putFencePosts w [0 ..< n] B = Inr ?MB" unfolding B by (rule if_P)
    ultimately show ?thesis using maps by (simp only:)
  qed
qed

lemma Search_state:
  assumes full: "chunksFull (fileBuffers ts)"
    and run: "Search word c ts = Some (Inr (ms, ts'))"
  shows "ts' = ts\<lparr>fileBuffers := fileBuffers ts'\<rparr>"
    and "length (fileBuffers ts') = length (fileBuffers ts)"
    and "\<forall>i < length (fileBuffers ts). even i \<longrightarrow> fileBuffers ts' ! i = fileBuffers ts ! i"
    and "\<forall>i < length (fileBuffers ts). odd i \<longrightarrow>
           i + 1 < length (fileBuffers ts) \<and>
           fileBuffers ts' ! i =
             fenceOf (wrap64 (c * maxWordSizeInBytes ts))
               (fileBuffers ts ! (i - 1)) (fileBuffers ts ! (i + 1))"
    and "joinTasks (map (\<lambda>i. scanLoop ts' i word c (bytes (fileBuffers ts' ! i)) 0 [])
                      [0 ..< length (fileBuffers ts')]) = Some (Inr ms)"
proof -
  let ?w = "wrap64 (c * maxWordSizeInBytes ts)"
  let ?bufs = "fileBuffers ts"
  let ?n = "length ?bufs"
  let ?C = "\<forall>i. 0 \<le> i \<and> i < ?n \<and> odd i \<longrightarrow> i + 1 < ?n \<and> fenceOK ?w (?bufs ! (i - 1)) (?bufs ! (i + 1))"
  let ?M = "map (\<lambda>i. if 0 \<le> i \<and> odd i then fenceOf ?w (?bufs ! (i - 1)) (?bufs ! (i + 1))
                      else ?bufs ! i) [0 ..< ?n]"
  have loop: "putFencePosts ?w [0 ..< ?n] ?bufs = (if ?C then Inr ?M else Inl Panic)"
    using putFencePosts_closed [OF full refl, of 0 ?w] by simp
  have C: ?C
  proof (rule ccontr)
    assume "\<not> ?C"
    with loop have "putFencePosts ?w [0 ..< ?n] ?bufs = Inl Panic" by simp
    with run show False by (simp add: Search_def)
  qed
  with loop have M: "putFencePosts ?w [0 ..< ?n] ?bufs = Inr ?M" by simp
  from run M have st: "ts' = ts\<lparr>fileBuffers := ?M\<rparr>"
    and tasks: "joinTasks (map (\<lambda>i. scanLoop (ts\<lparr>fileBuffers := ?M\<rparr>) i word c (bytes (?M ! i)) 0 [])
                      [0 ..< length ?M]) = Some (Inr ms)"
    by (auto simp: Search_def Let_def split: option.splits sum.splits)
  from st have bufs': "fileBuffers ts' = ?M" by simp
  show "ts' = ts\<lparr>fileBuffers := fileBuffers ts'\<rparr>" using st by simp
  show "length (fileBuffers ts') = ?n" using bufs' by simp
  show "\<forall>i < ?n. even i \<longrightarrow> fileBuffers ts' ! i = ?bufs ! i" using bufs' by simp
  show "\<forall>i < ?n. odd i \<longrightarrow> i + 1 < ?n \<and> fileBuffers ts' ! i = fenceOf ?w (?bufs ! (i - 1)) (?bufs ! (i + 1))"
    using bufs' C by simp
  show "joinTasks (map (\<lambda>i. scanLoop ts' i word c (bytes (fileBuffers ts' ! i)) 0 [])
                      [0 ..< length (fileBuffers ts')]) = Some (Inr ms)"
    using tasks st by simp
qed

lemma Search_even_slots:
  assumes "chunksFull (fileBuffers ts)" "chunksFull bufs'"
    "length bufs' = length (fileBuffers ts)"
    "\<forall>i < length (fileBuffers ts). even i \<longrightarrow> bufs' ! i = fileBuffers ts ! i"
  shows "Search word c (ts\<lparr>fileBuffers := bufs'\<rparr>) = Search word c ts"
proof -
  have "putFencePosts w [0 ..< length (fileBuffers ts)] bufs' =
        putFencePosts w [0 ..< length (fileBuffers ts)] (fileBuffers ts)" for w
    using fence_loop_even_slots [OF assms(3) refl assms(2) assms(1)] assms(4) by simp
  then show ?thesis using assms(3) by (simp add: Search_def Let_def split: sum.split)
qed





lemma wrap64_zero [simp]: "wrap64 0 = 0"
  by (simp add: wrap64_def)


section \<open>Evaluating Search on a file of two chunks\<close>

lemma Index_replicate_append:
  assumes "sep \<noteq> []" "hd sep \<noteq> c"
  shows "Index (replicate n c @ s) sep = (if Index s sep = - 1 then - 1 else int n + Index s sep)"
proof (induction n)
  case 0
  then show ?case by simp
next
  case (Suc n)
  from assms have "take (length sep) (c # replicate n c @ s) \<noteq> sep"
    by (cases sep) auto
  moreover have "- 1 \<le> Index s sep"
    using Index_found [of s sep] by (cases "Index s sep = - 1") simp_all
  ultimately show ?case using Suc by (simp add: Let_def)
qed

lemma Index_replicate:
  assumes "sep \<noteq> []" "hd sep \<noteq> c"
  shows "Index (replicate n c) sep = - 1"
  using Index_replicate_append [OF assms, of n "[]"] assms(1) by simp

lemma scan_none:
  "Index (ToLower buffer) (ToLower word) = - 1 \<Longrightarrow>
   scanLoop ts i word c buffer skip found = Some (Inr found)"
  by (subst scanLoop.simps) simp

lemma upt_0_3: "[0 ..< 3] = [0, 1, 2]"
  by (simp add: upt_rec)

lemma wrap64_20: "wrap64 20 = 20"
  by (simp add: wrap64_def)

lemma NewSearcher_fileC: "NewSearcher (Some fileC) = Inr tsC"
  unfolding fileC_def tsC_def by (subst NewSearcher_two) simp_all

lemma fence_tsC:
  "putFencePosts 20 [0 ..< 3] (fileBuffers tsC) = Inr (fileBuffers tsC1)"
  by (simp add: upt_0_3 tsC_def tsC1_def putFencePost_def sliceFrom_def sliceTo_def
      appendPost_def len_def cap_def nilSlice_def)

lemma Search_q_tsC: "Search ''q'' 1 tsC = Some (Inr ([], tsC1))"
proof -
  have low: "lowerByte CHR ''x'' = CHR ''x''" "lowerByte CHR ''y'' = CHR ''y''"
    "lowerByte CHR ''q'' = CHR ''q''" "lowerByte (CHR 0x00) = CHR 0x00"
    by (simp_all add: lowerByte_def)
  have s0: "scanLoop tsC1 0 ''q'' 1 (replicate 4096 CHR ''x'') 0 [] = Some (Inr [])"
    by (rule scan_none) (simp add: ToLower_def low Index_replicate)
  have s1: "scanLoop tsC1 (Suc 0) ''q'' 1
              (replicate 20 CHR ''x'' @ ''y'' @ replicate 19 (CHR 0x00)) 0 [] = Some (Inr [])"
    by (rule scan_none) (simp add: ToLower_def low Index_replicate_append Index_replicate)
  have s2: "scanLoop tsC1 2 ''q'' 1 ''y'' 0 [] = Some (Inr [])"
    by (rule scan_none) (simp add: ToLower_def low)
  have bufs: "fileBuffers tsC1 = [\<lparr>bytes = replicate 4096 CHR ''x'', spare = []\<rparr>,
                          \<lparr>bytes = replicate 20 CHR ''x'' @ ''y'' @ replicate 19 (CHR 0x00),
                            spare = []\<rparr>,
                          \<lparr>bytes = ''y'', spare = replicate 4095 (CHR 0x00)\<rparr>]"
    by (simp add: tsC1_def)
  have upd: "tsC\<lparr>fileBuffers := fileBuffers tsC1\<rparr> = tsC1"
    by (simp add: tsC_def tsC1_def)
  have mw: "maxWordSizeInBytes tsC = 20" "length (fileBuffers tsC) = 3"
    by (simp_all add: tsC_def)
  have tasks: "map (\<lambda>i. scanLoop tsC1 i ''q'' 1 (bytes (fileBuffers tsC1 ! i)) 0 []) [0 ..< 3] =
                 [Some (Inr []), Some (Inr []), Some (Inr [])]"
    using s0 s1 s2 by (simp add: bufs upt_0_3)
  have len: "length (fileBuffers tsC1) = 3" by (simp add: tsC1_def)
  show ?thesis
    unfolding Search_def Let_def mw
    by (simp add: wrap64_20 fence_tsC upd len tasks joinTasks_def panicked_def matchesOf_def)
qed

lemma isASCII_simps [simp]:
  "isASCII [] = True"
  "isASCII (c # s) = ((of_char c :: nat) < 128 \<and> isASCII s)"
  "isASCII (s @ t) = (isASCII s \<and> isASCII t)"
  "isASCII (replicate n c) = (n = 0 \<or> (of_char c :: nat) < 128)"
  by (auto simp: isASCII_def list_all_iff)




section \<open>The text of a match\<close>



section \<open>Context 0 and the chunk boundaries\<close>



section \<open>What Search writes\<close>

text \<open>
  Claim C8, as amended. \<^verbatim>\<open>Search\<close> writes into the searcher: on a searcher built by
  \<^verbatim>\<open>NewSearcher\<close>, a call that returns leaves every chunk slot (even index) and the number
  of slots as they were and overwrites every fence slot (odd index) with the fencepost buffer
  of its own context width. Every call rebuilds all fence slots from the chunks before it
  scans, so a later call, made after this one has returned, behaves as on the searcher as
  first built.
\<close>

theorem search_rewrites_fence_slots_only:
  assumes new: "NewSearcher (Some file) = Inr ts"
    and run: "Search word c ts = Some (Inr (ms, ts'))"
  shows "maxWordSizeInBytes ts' = maxWordSizeInBytes ts \<and>
         length (fileBuffers ts') = length (fileBuffers ts) \<and>
         (\<forall>i < length (fileBuffers ts). even i \<longrightarrow> fileBuffers ts' ! i = fileBuffers ts ! i) \<and>
         (\<forall>i < length (fileBuffers ts). odd i \<longrightarrow>
            fileBuffers ts' ! i =
              fenceOf (wrap64 (c * 20)) (fileBuffers ts ! (i - 1)) (fileBuffers ts ! (i + 1))) \<and>
         (\<forall>word2 c2. Search word2 c2 ts' = Search word2 c2 ts)"
proof -
  note shape = NewSearcher_shape [OF new]
  note st = Search_state [OF shape(4) run]
  have full': "chunksFull (fileBuffers ts')"
    unfolding chunksFull_iff
  proof (intro allI impI)
    fix j assume j: "even j \<and> j + 2 < length (fileBuffers ts')"
    with st(2,3) have "fileBuffers ts' ! j = fileBuffers ts ! j" by simp
    moreover from j st(2) shape(4) have "spare (fileBuffers ts ! j) = []"
      by (simp add: chunksFull_iff)
    ultimately show "spare (fileBuffers ts' ! j) = []" by simp
  qed
  have "Search word2 c2 ts' = Search word2 c2 ts" for word2 c2
  proof -
    have "Search word2 c2 (ts\<lparr>fileBuffers := fileBuffers ts'\<rparr>) = Search word2 c2 ts"
      using shape(4) full' st(2) st(3) by (rule Search_even_slots)
    with st(1) show ?thesis by simp
  qed
  moreover from st(1) have "maxWordSizeInBytes ts' = maxWordSizeInBytes ts"
    by (metis TextSearcher.select_convs(1) TextSearcher.surjective TextSearcher.update_convs(2))
  ultimately show ?thesis using st(2,3,4) shape(1) by simp
qed

theorem search_rewrites_fence_slots_only_witness:
  "NewSearcher (Some fileC) = Inr tsC \<and> Search ''q'' 1 tsC = Some (Inr ([], tsC1)) \<and>
   fileBuffers tsC1 ! 0 = fileBuffers tsC ! 0 \<and> fileBuffers tsC1 ! 2 = fileBuffers tsC ! 2 \<and>
   fileBuffers tsC1 ! 1 = fenceOf 20 (fileBuffers tsC ! 0) (fileBuffers tsC ! 2) \<and>
   Search ''y'' 0 tsC1 = Search ''y'' 0 tsC"
proof -
  from search_rewrites_fence_slots_only [OF NewSearcher_fileC Search_q_tsC]
  have keep: "\<forall>i < length (fileBuffers tsC). even i \<longrightarrow> fileBuffers tsC1 ! i = fileBuffers tsC ! i"
    and fence: "\<forall>i < length (fileBuffers tsC). odd i \<longrightarrow>
            fileBuffers tsC1 ! i =
              fenceOf (wrap64 (1 * 20)) (fileBuffers tsC ! (i - 1)) (fileBuffers tsC ! (i + 1))"
    and later: "\<forall>word2 c2. Search word2 c2 tsC1 = Search word2 c2 tsC"
    by blast+
  have len: "length (fileBuffers tsC) = 3" by (simp add: tsC_def)
  from keep len have "fileBuffers tsC1 ! 0 = fileBuffers tsC ! 0"
    "fileBuffers tsC1 ! 2 = fileBuffers tsC ! 2" by simp_all
  moreover from fence len have "fileBuffers tsC1 ! 1 =
      fenceOf (wrap64 (1 * 20)) (fileBuffers tsC ! (1 - 1)) (fileBuffers tsC ! (1 + 1))"
    by simp
  then have "fileBuffers tsC1 ! 1 = fenceOf 20 (fileBuffers tsC ! 0) (fileBuffers tsC ! 2)"
    by (simp add: wrap64_20 numeral_2_eq_2)
  moreover from later have "Search ''y'' 0 tsC1 = Search ''y'' 0 tsC" by blast
  ultimately show ?thesis using NewSearcher_fileC Search_q_tsC by simp
qed

text \<open>
  Claim C8 as stated fails: after \<^verbatim>\<open>Search\<close> with context 1 on the searcher of \<open>fileC\<close>
  the slot 1 of the buffer sequence, empty before the call, holds 40 bytes.
\<close>

theorem search_overwrites_fence_slot_counterexample:
  "NewSearcher (Some fileC) = Inr tsC \<and> Search ''q'' 1 tsC = Some (Inr ([], tsC1)) \<and>
   bytes (fileBuffers tsC ! 1) = [] \<and>
   bytes (fileBuffers tsC1 ! 1) = replicate 20 CHR ''x'' @ ''y'' @ replicate 19 (CHR 0x00) \<and>
   fileBuffers tsC1 ! 1 \<noteq> fileBuffers tsC ! 1"
  using NewSearcher_fileC Search_q_tsC by (simp add: tsC_def tsC1_def nilSlice_def)

section \<open>The width of a fencepost buffer\<close>

text \<open>
  Claim C3 says that the width taken from each neighbour is clamped to the bytes the
  neighbour holds. The code does not clamp: \<^verbatim>\<open>secondHalfPost[0:size]\<close> is bounded by the
  capacity of the chunk buffer, so on the file \<open>fileC\<close>, whose second chunk holds one byte,
  the fence for context 1 has 40 bytes, the last 19 of them zero bytes from behind the end of
  the chunk, where the claim gives 21 bytes; and for context 205 the width 4100 exceeds the
  chunk and the slice expression panics.
\<close>

theorem fence_reads_past_short_chunk:
  "NewSearcher (Some fileC) = Inr tsC \<and> length (bytes (fileBuffers tsC ! 2)) = 1 \<and>
   Search ''q'' 1 tsC = Some (Inr ([], tsC1)) \<and>
   bytes (fileBuffers tsC1 ! 1) = replicate 20 CHR ''x'' @ ''y'' @ replicate 19 (CHR 0x00) \<and>
   length (bytes (fileBuffers tsC1 ! 1)) = 40 \<and>
   Search ''q'' 205 tsC = Some (Inl Panic)"
proof -
  have "wrap64 (205 * 20) = 4100" by (simp add: wrap64_def)
  then have "Search ''q'' 205 tsC = Some (Inl Panic)"
    by (simp add: Search_def tsC_def upt_0_3 putFencePost_def sliceFrom_def len_def)
  with NewSearcher_fileC Search_q_tsC show ?thesis by (simp add: tsC_def tsC1_def)
qed

section \<open>A boundary error ends the scan of the buffer\<close>

text \<open>
  Claim C2 says that a candidate whose neighbour cannot be read is dropped alone and that
  the scan of the buffer goes on. The code leaves the loop on the error: in \<open>fileB\<close> the
  second chunk starts with \<^verbatim>\<open>cat\<close>, whose validation returns the error, and the scan of
  that chunk ends with no match, although the second \<^verbatim>\<open>cat\<close> of the chunk, at local index
  4, stands between spaces and passes the validation. With context 0 no other buffer holds
  it, and \<^verbatim>\<open>Search\<close> returns nothing.
\<close>

theorem scan_stops_at_boundary_error:
  "NewSearcher (Some fileB) = Inr tsB \<and>
   take 3 (drop 4100 fileB) = ''cat'' \<and> fileB ! 4099 = CHR '' '' \<and> fileB ! 4103 = CHR '' '' \<and>
   isExactWord tsB 2 ''cat'' 0 = Inl OutOfBounds \<and>
   isExactWord tsB 2 ''cat'' 4 = Inr True \<and>
   scanLoop tsB 2 ''cat'' 0 (bytes (fileBuffers tsB ! 2)) 0 [] = Some (Inr []) \<and>
   Search ''cat'' 0 tsB = Some (Inr ([], tsB))"
proof -
  have new: "NewSearcher (Some fileB) = Inr tsB"
    unfolding fileB_def tsB_def by (subst NewSearcher_two) simp_all
  have low: "lowerByte CHR '' '' = CHR '' ''" "ToLower ''cat cat '' = ''cat cat ''"
    by (simp add: lowerByte_def, code_simp)
  have e0: "isExactWord tsB 2 ''cat'' 0 = Inl OutOfBounds"
    by (simp add: tsB_def isExactWord_def)
  have e4: "isExactWord tsB 2 ''cat'' 4 = Inr True"
    by (simp add: tsB_def isExactWord_def byteAt_def len_def chunkSize_def ContainsRune_def
        wordCharactersList_def)
  have lowsp: "ToLower (replicate 4096 CHR '' '') = replicate 4096 CHR '' ''"
    by (simp add: ToLower_def low)
  have s0: "scanLoop tsB 0 ''cat'' 0 (replicate 4096 CHR '' '') 0 [] = Some (Inr [])"
    by (rule scan_none) (simp add: lowsp lower_cat Index_replicate)
  have s1: "scanLoop tsB (Suc 0) ''cat'' 0 [] 0 [] = Some (Inr [])"
    by (rule scan_none) (simp add: ToLower_def)
  have s2: "scanLoop tsB 2 ''cat'' 0 ''cat cat '' 0 [] = Some (Inr [])"
    by (subst scanLoop.simps) (simp add: low lower_cat e0)
  have fence: "putFencePosts 0 [0 ..< 3] (fileBuffers tsB) = Inr (fileBuffers tsB)"
    by (simp add: upt_0_3 tsB_def putFencePost_def sliceFrom_def sliceTo_def
        appendPost_def len_def cap_def nilSlice_def)
  have tasks: "map (\<lambda>i. scanLoop tsB i ''cat'' 0 (bytes (fileBuffers tsB ! i)) 0 []) [0 ..< 3] =
                 [Some (Inr []), Some (Inr []), Some (Inr [])]"
    using s0 s1 s2 by (simp add: tsB_def upt_0_3 nilSlice_def)
  have len: "length (fileBuffers tsB) = 3" by (simp add: tsB_def)
  have run: "Search ''cat'' 0 tsB = Some (Inr ([], tsB))"
    unfolding Search_def Let_def
    by (simp add: len fence tasks joinTasks_def panicked_def matchesOf_def)
  have f: "take 3 (drop 4100 fileB) = ''cat''" "fileB ! 4099 = CHR '' ''"
    "fileB ! 4103 = CHR '' ''"
    by (simp_all add: fileB_def nth_append)
  from s2 have "scanLoop tsB 2 ''cat'' 0 (bytes (fileBuffers tsB ! 2)) 0 [] = Some (Inr [])"
    by (simp add: tsB_def)
  with new f e0 e4 run show ?thesis by simp
qed

section \<open>One occurrence, two reports\<close>

lemma Fields_replicate_space: "Fields (replicate n CHR '' '' @ s) = Fields s"
  unfolding Fields_def by (induction n) (simp_all add: asciiSpace_def)

lemma replaceCRLF_other: "c \<noteq> CHR 0x0D \<Longrightarrow> replaceCRLF (c # s) = c # replaceCRLF s"
  by (cases s) simp_all

lemma removeReturnCharacters_replicate_space:
  "removeReturnCharacters (replicate n CHR '' '' @ s) = replicate n CHR '' '' @ removeReturnCharacters s"
  unfolding removeReturnCharacters_def replaceLF_def
  by (induction n) (simp_all add: replaceCRLF_other)

lemma NewSearcher_fileD: "NewSearcher (Some fileD) = Inr tsD"
proof -
  have "NewSearcher (Some ((replicate 4090 CHR '' '' @ ''a cat '') @ ''b                   '')) =
          Inr \<lparr>maxWordSizeInBytes = 20,
                fileBuffers = [\<lparr>bytes = replicate 4090 CHR '' '' @ ''a cat '', spare = []\<rparr>, nilSlice,
                  \<lparr>bytes = ''b                   '',
                    spare = replicate (4096 - length ''b                   '') (CHR 0x00)\<rparr>]\<rparr>"
    by (rule NewSearcher_two) simp_all
  then show ?thesis by (simp add: fileD_def tsD_def)
qed

lemma fence_tsD:
  "putFencePosts 20 [0 ..< 3] (fileBuffers tsD) = Inr (fileBuffers tsD1)"
  by (simp add: upt_0_3 tsD_def tsD1_def putFencePost_def sliceFrom_def sliceTo_def
      appendPost_def len_def cap_def nilSlice_def)

lemma low_consts:
  "ToLower ''cat'' = ''cat''" "ToLower ''a cat '' = ''a cat ''" "ToLower '' '' = '' ''"
  "ToLower ''b                   '' = ''b                   ''"
  "ToLower '' b                   '' = '' b                   ''"
  "ToLower ''a cat b                   '' = ''a cat b                   ''"
  by code_simp+

lemma low_space: "ToLower (replicate n CHR '' '' @ s) = replicate n CHR '' '' @ ToLower s"
  by (simp add: ToLower_def lowerByte_def)

lemma not_word_space: "\<not> ContainsRune wordCharactersList CHR '' ''"
  by (simp add: ContainsRune_def wordCharactersList_def)

lemma context_none: "findContext ts '' '' False n i 1 = Inr []"
  by (subst findContext.simps) (simp add: Fields_def asciiSpace_def minInt_def)

lemma context_b: "findContext ts '' b                   '' False n i 1 = Inr '' b''"
  by (subst findContext.simps)
     (simp add: Fields_def asciiSpace_def minInt_def punctuationList_def)

lemma context_a_padded:
  "findContext ts (replicate k CHR '' '' @ ''a '') True n i 1 = Inr ''a ''"
  by (subst findContext.simps)
     (simp add: Fields_replicate_space, simp add: Fields_def asciiSpace_def minInt_def punctuationList_def)

lemma rrc_consts:
  "removeReturnCharacters ''a '' = ''a ''" "removeReturnCharacters '' '' = '' ''"
  "removeReturnCharacters '' b                   '' = '' b                   ''"
  by (simp_all add: removeReturnCharacters_def replaceLF_def)

lemma scan_chunk0: "scanLoop tsD1 0 ''cat'' 1 (replicate 4090 CHR '' '' @ ''a cat '') 0 [] =
    Some (Inr [''a cat''])"
proof -
  have idx: "Index (ToLower (replicate 4090 CHR '' '' @ ''a cat '')) (ToLower ''cat'') = 4092"
    by (simp add: low_space low_consts Index_replicate_append)
  have exact: "isExactWord tsD1 0 ''cat'' 4092 = Inr True"
    by (simp add: tsD1_def isExactWord_def byteAt_def len_def chunkSize_def nth_append
        not_word_space)
  have prev: "findPrevWords tsD1 0 4092 1 = Inr ''a ''"
    by (simp add: tsD1_def findPrevWords_def sliceTo_def cap_def
        removeReturnCharacters_replicate_space rrc_consts context_a_padded)
  have nxt: "findNextWords tsD1 0 4095 1 = Inr []"
    by (simp add: tsD1_def findNextWords_def sliceFrom_def len_def rrc_consts context_none)
  have sub: "subslice (fileBuffers tsD1 ! 0) 4092 4095 = Inr ''cat''"
    by (simp add: tsD1_def subslice_def cap_def)
  have render: "renderMatch tsD1 0 ''cat'' 1 4092 = Inr ''a cat''"
    using prev nxt sub by (simp add: renderMatch_def tsD1_def)
  have rest: "scanLoop tsD1 0 ''cat'' 1 '' '' 4095 [''a cat''] = Some (Inr [''a cat''])"
    by (rule scan_none) (simp add: low_consts)
  show ?thesis
    by (subst scanLoop.simps) (simp add: idx exact render rest)
qed

lemma scan_fence: "scanLoop tsD1 1 ''cat'' 1
    (replicate 14 CHR '' '' @ ''a cat b                   '') 0 [] = Some (Inr [''a cat b''])"
proof -
  have idx: "Index (ToLower (replicate 14 CHR '' '' @ ''a cat b                   ''))
               (ToLower ''cat'') = 16"
    by (simp add: low_space low_consts Index_replicate_append)
  have exact: "isExactWord tsD1 1 ''cat'' 16 = Inr True"
    by (simp add: tsD1_def isExactWord_def byteAt_def len_def chunkSize_def nth_append
        not_word_space)
  have prev: "findPrevWords tsD1 1 16 1 = Inr ''a ''"
    by (simp add: tsD1_def findPrevWords_def sliceTo_def cap_def
        removeReturnCharacters_replicate_space rrc_consts context_a_padded)
  have nxt: "findNextWords tsD1 1 19 1 = Inr '' b''"
    using rrc_consts(3) context_b [of tsD1 1 19]
    by (simp add: tsD1_def findNextWords_def sliceFrom_def len_def)
  have sub: "subslice (fileBuffers tsD1 ! 1) 16 19 = Inr ''cat''"
    by (simp add: tsD1_def subslice_def cap_def)
  have render: "renderMatch tsD1 1 ''cat'' 1 16 = Inr ''a cat b''"
    using prev nxt sub by (simp add: renderMatch_def tsD1_def)
  have rest: "scanLoop tsD1 1 ''cat'' 1 '' b                   '' 19 [''a cat b''] = Some (Inr [''a cat b''])"
    by (rule scan_none) (simp add: low_consts)
  have "(let wordIndex = Index (ToLower (replicate 14 CHR '' '' @ ''a cat b                   ''))
                          (ToLower ''cat'')
      in if wordIndex = - 1 then Some (Inr [])
         else
          (case isExactWord tsD1 1 ''cat'' (wordIndex + 0) of
             Inl Panic \<Rightarrow> Some (Inl Panic)
           | Inl _ \<Rightarrow> Some (Inr [])
           | Inr exactMatch \<Rightarrow>
               if exactMatch = False
               then scanLoop tsD1 1 ''cat'' 1
                      (drop (nat (wordIndex + int (length ''cat'')))
                         (replicate 14 CHR '' '' @ ''a cat b                   ''))
                      (0 + (wordIndex + int (length ''cat''))) []
               else
                (case renderMatch tsD1 1 ''cat'' 1 (wordIndex + 0) of
                   Inl e \<Rightarrow> Some (Inl e)
                 | Inr match \<Rightarrow>
                     scanLoop tsD1 1 ''cat'' 1
                       (drop (nat (wordIndex + int (length ''cat'')))
                          (replicate 14 CHR '' '' @ ''a cat b                   ''))
                       (0 + (wordIndex + int (length ''cat''))) ([] @ [match])))) =
        Some (Inr [''a cat b''])"
    using exact render rest by (simp add: idx)
  then show ?thesis by (subst scanLoop.simps)
qed

lemma scan_chunk1: "scanLoop tsD1 2 ''cat'' 1 ''b                   '' 0 [] = Some (Inr [])"
  by (rule scan_none) (simp add: low_consts)

text \<open>
  Claim C1 says that each standalone occurrence appears exactly once in the result, the
  detections of the chunk and of the fence being merged by their file span. The code
  concatenates the matches of all buffers and removes nothing (its comment before the
  concatenation: \<^verbatim>\<open>@TODO potentially duplicates from fencepost chunks\<close>). In \<open>fileD\<close> the
  word \<^verbatim>\<open>cat\<close> occurs once, at file offset 4092; \<^verbatim>\<open>Search\<close> with context 1 reports it
  twice, once from the first chunk and once from the fence, in two renderings.
\<close>

theorem boundary_match_reported_twice:
  "NewSearcher (Some fileD) = Inr tsD \<and>
   Index (ToLower fileD) (ToLower ''cat'') = 4092 \<and>
   Index (ToLower (drop 4093 fileD)) (ToLower ''cat'') = - 1 \<and>
   Search ''cat'' 1 tsD = Some (Inr ([''a cat'', ''a cat b''], tsD1))"
proof -
  have tasks: "map (\<lambda>i. scanLoop tsD1 i ''cat'' 1 (bytes (fileBuffers tsD1 ! i)) 0 []) [0 ..< 3] =
                 [Some (Inr [''a cat'']), Some (Inr [''a cat b'']), Some (Inr [])]"
    using scan_chunk0 scan_fence scan_chunk1 by (simp add: tsD1_def upt_0_3)
  have len: "length (fileBuffers tsD1) = 3" "length (fileBuffers tsD) = 3"
    "maxWordSizeInBytes tsD = 20"
    by (simp_all add: tsD1_def tsD_def)
  have upd: "tsD\<lparr>fileBuffers := fileBuffers tsD1\<rparr> = tsD1"
    by (simp add: tsD_def tsD1_def)
  have run: "Search ''cat'' 1 tsD = Some (Inr ([''a cat'', ''a cat b''], tsD1))"
    unfolding Search_def Let_def len
    by (simp add: wrap64_20 fence_tsD upd len tasks joinTasks_def panicked_def matchesOf_def)
  have occ: "Index (ToLower fileD) (ToLower ''cat'') = 4092"
    by (simp add: fileD_def low_space low_consts Index_replicate_append)
  have "drop 4093 fileD = ''at b                   ''" by (simp add: fileD_def)
  moreover have "ToLower ''at b                   '' = ''at b                   ''" by code_simp
  ultimately have once: "Index (ToLower (drop 4093 fileD)) (ToLower ''cat'') = - 1"
    by (simp add: low_consts)
  from NewSearcher_fileD occ once run show ?thesis by simp
qed

end
